theory Spec2Isabelle
  imports Complex_Main "HOL-Library.Word" "HOL-Library.Signed_Division"
    "HOL-Library.Code_Target_Nat"
begin

unbundle bit_operations_syntax

section \<open>Common data: pointers, string pieces, C++ int, faults\<close>

text \<open>
  A pointer is an address, a natural number; the null pointer is address 0.
  The bytes of the searched text live in a memory \<open>mem\<close> from addresses to bytes.
\<close>

type_synonym ptr = nat

definition NULL :: ptr where
  "NULL = 0"

type_synonym memory = "ptr \<Rightarrow> 8 word"

text \<open>\<open>StringPiece\<close>: a pointer and a length (\<open>size_t\<close>).\<close>

record StringPiece =
  sp_data :: ptr
  sp_size :: nat

text \<open>The default constructor \<open>StringPiece()\<close>: null data, length 0.\<close>

definition StringPiece0 :: StringPiece where
  "StringPiece0 = \<lparr>sp_data = NULL, sp_size = 0\<rparr>"

definition BeginPtr :: "StringPiece \<Rightarrow> ptr" where
  "BeginPtr s = sp_data s"

definition EndPtr :: "StringPiece \<Rightarrow> ptr" where
  "EndPtr s = sp_data s + sp_size s"

text \<open>
  Every way the C++ code stops without returning is a fault of the model:
  a failed \<open>RE2_CHECK\<close>, \<open>LOG(FATAL)\<close>, a failed \<open>DCHECK\<close>, and the undefined behaviours
  the code can reach (signed overflow of an \<open>int\<close>, an index outside an array,
  an allocation of negative length).
\<close>

datatype fault =
    CheckFailed
  | LogFatal
  | DCheckFailed
  | SignedOverflow
  | BadAlloc
  | InstOutOfBounds
  | VisitedOutOfBounds
  | CapOutOfBounds
  | SubmatchOutOfBounds
  | StateOutOfBounds
  | BytemapOutOfBounds

text \<open>
  A C++ \<open>int\<close> has 32 bits. \<open>int_cast\<close> is \<open>static_cast<int>\<close> of a wider integer
  (the value modulo \<open>2^32\<close>, read as signed); \<open>chk_int\<close> is the result of an \<open>int\<close>
  operation whose mathematical value is \<open>x\<close>: the value when it is representable,
  undefined behaviour otherwise. \<open>size_t\<close> has 64 bits.
\<close>

definition INT_MIN :: int where
  "INT_MIN = - (2 ^ 31)"

definition INT_MAX :: int where
  "INT_MAX = 2 ^ 31 - 1"

definition int_cast :: "int \<Rightarrow> int" where
  "int_cast x = (x + 2 ^ 31) mod 2 ^ 32 - 2 ^ 31"

definition chk_int :: "int \<Rightarrow> fault + int" where
  "chk_int x = (if INT_MIN \<le> x \<and> x \<le> INT_MAX then Inr x else Inl SignedOverflow)"

definition size_t_cast :: "int \<Rightarrow> nat" where
  "size_t_cast x = nat (x mod 2 ^ 64)"

section \<open>The compiled program (external to the sources at hand)\<close>

text \<open>
  \<open>Prog\<close> and \<open>Prog::Inst\<close> are declared in \<open>re2/prog.h\<close>, which is not among the sources;
  they are modelled by what the code uses of them. The opcodes are those of the \<open>switch\<close>
  in \<open>Backtracker::Try\<close>; \<open>kInstOther\<close> stands for any opcode that reaches its
  \<open>default\<close> branch. \<open>Matches\<close> (the byte-range test of an instruction) and
  \<open>EmptyFlags\<close> (the empty-width flags holding at a position of the context) are
  parameters.
\<close>

datatype InstOp =
    kInstAltMatch
  | kInstByteRange
  | kInstCapture
  | kInstEmptyWidth
  | kInstMatch
  | kInstNop
  | kInstFail
  | kInstOther int

record Inst =
  opcode :: InstOp
  out :: int
  last' :: bool
  cap :: int
  empty' :: "32 word"
  Matches :: "int \<Rightarrow> bool"

record Prog =
  insts :: "Inst list"
  start :: int
  anchor_start :: bool
  anchor_end :: bool
  bytemap :: "8 word list"
  bytemap_range :: int
  EmptyFlags :: "StringPiece \<Rightarrow> ptr \<Rightarrow> 32 word"

definition prog_size :: "Prog \<Rightarrow> int" where
  "prog_size prog = int (length (insts prog))"

text \<open>\<open>prog->inst(id')\<close>: the instruction array indexed; outside the array it is a fault.\<close>

definition prog_inst :: "Prog \<Rightarrow> int \<Rightarrow> fault + Inst" where
  "prog_inst prog id' =
     (if 0 \<le> id' \<and> id' < prog_size prog then Inr (insts prog ! nat id')
      else Inl InstOutOfBounds)"

datatype Anchor = kUnanchored | kAnchored

datatype MatchKind = kFirstMatch | kLongestMatch | kFullMatch | kManyMatch

section \<open>The backtracker (\<open>re2/testing/backtrack.cc\<close>)\<close>

text \<open>
  The fields of \<open>class Backtracker\<close>; the members \<open>prog_\<close>, \<open>text_\<close>, ... of the source are
  the fields \<open>bt_prog\<close>, \<open>bt_text\<close>, ... here. \<open>bt_submatch\<close> holds the contents of the
  array the pointer \<open>submatch_\<close> points to (\<open>[]\<close> for the null pointer), \<open>bt_cap\<close> the
  capture registers \<open>cap_[64]\<close>, \<open>bt_visited\<close> the words of the bitmap \<open>visited_\<close>.
  \<open>bt_explored\<close> is a history variable that the source does not have: \<open>Visit\<close> appends
  the pair of its arguments to it each time it goes on to call \<open>Try\<close> on them.
  Nothing reads it.
\<close>

record Backtracker =
  bt_prog :: Prog
  bt_text :: StringPiece
  bt_context :: StringPiece
  bt_anchored :: bool
  bt_longest :: bool
  bt_endmatch :: bool
  bt_submatch :: "StringPiece list"
  bt_nsubmatch :: int
  bt_cap :: "ptr list"
  bt_visited :: "32 word list"
  bt_explored :: "(int \<times> ptr) list"

text \<open>\<open>arraysize(cap_)\<close>.\<close>

definition kCapSize :: int where
  "kCapSize = 64"

text \<open>
  The constructor \<open>Backtracker(prog)\<close>. It leaves \<open>cap_\<close> uninitialised (\<open>Search\<close> clears
  it before use); \<open>visited_\<close> is an empty array and \<open>submatch_\<close> the null pointer.
\<close>

definition Backtracker_new :: "Prog \<Rightarrow> Backtracker" where
  "Backtracker_new prog =
     \<lparr>bt_prog = prog, bt_text = StringPiece0, bt_context = StringPiece0,
      bt_anchored = False, bt_longest = False, bt_endmatch = False,
      bt_submatch = [], bt_nsubmatch = 0,
      bt_cap = replicate (nat kCapSize) NULL, bt_visited = [], bt_explored = []\<rparr>"

text \<open>Reading and writing \<open>cap_[i]\<close>: outside the array it is a fault.\<close>

definition cap_get :: "Backtracker \<Rightarrow> int \<Rightarrow> fault + ptr" where
  "cap_get b i =
     (if 0 \<le> i \<and> i < int (length (bt_cap b)) then Inr (bt_cap b ! nat i)
      else Inl CapOutOfBounds)"

definition cap_set :: "Backtracker \<Rightarrow> int \<Rightarrow> ptr \<Rightarrow> fault + Backtracker" where
  "cap_set b i p =
     (if 0 \<le> i \<and> i < int (length (bt_cap b)) then Inr (b\<lparr>bt_cap := (bt_cap b)[nat i := p]\<rparr>)
      else Inl CapOutOfBounds)"

text \<open>
  The loop of \<open>Try\<close> at \<open>kInstMatch\<close>, over the indices \<open>i = 0, ..., nsubmatch_ - 1\<close>:
  \<open>submatch_[i] = StringPiece(cap_[2 * i], cap_[2 * i + 1] - cap_[2 * i])\<close>,
  the length converted to \<open>size_t\<close>.
\<close>

fun store_submatch :: "int list \<Rightarrow> Backtracker \<Rightarrow> fault + Backtracker" where
  "store_submatch [] b = Inr b"
| "store_submatch (i # rest) b =
     (case cap_get b (2 * i) of Inl e \<Rightarrow> Inl e | Inr lo \<Rightarrow>
       (case cap_get b (2 * i + 1) of Inl e \<Rightarrow> Inl e | Inr hi \<Rightarrow>
          if 0 \<le> i \<and> i < int (length (bt_submatch b))
          then store_submatch rest
                 (b\<lparr>bt_submatch := (bt_submatch b)
                      [nat i := \<lparr>sp_data = lo, sp_size = size_t_cast (int hi - int lo)\<rparr>]\<rparr>)
          else Inl SubmatchOutOfBounds))"

text \<open>
  The head of \<open>Visit\<close> (the two checks and the bit index):
  \<open>RE2_CHECK(p <= text_.data() + text_.size())\<close>,
  \<open>n = id * static_cast<int>(text_.size()+1) + static_cast<int>(p - text_.data())\<close>,
  \<open>RE2_CHECK_LT(n / 32, visited_.size())\<close>.
  The result is the word index \<open>n / 32\<close> (C++ division truncates: \<open>sdiv\<close>) and the mask
  \<open>1 << (n & 31)\<close> as a 32-bit word.
\<close>

definition visited_index :: "StringPiece \<Rightarrow> int \<Rightarrow> ptr \<Rightarrow> fault + int" where
  "visited_index text id' p =
     (case chk_int (id' * int_cast (int (sp_size text) + 1)) of Inl e \<Rightarrow> Inl e | Inr m \<Rightarrow>
        chk_int (m + int_cast (int p - int (sp_data text))))"

definition visited_slot :: "Backtracker \<Rightarrow> int \<Rightarrow> ptr \<Rightarrow> fault + nat \<times> 32 word" where
  "visited_slot b id' p =
     (if \<not> p \<le> sp_data (bt_text b) + sp_size (bt_text b) then Inl CheckFailed
      else case visited_index (bt_text b) id' p of Inl e \<Rightarrow> Inl e | Inr n \<Rightarrow>
        if \<not> n sdiv 32 < int (length (bt_visited b)) then Inl CheckFailed
        else if n sdiv 32 < 0 then Inl VisitedOutOfBounds
        else Inr (nat (n sdiv 32), push_bit (nat (n AND 31)) 1))"

text \<open>
  \<open>Visit\<close> and \<open>Try\<close>. The source recurses without a bound; the model counts the depth
  of the calls down from a fuel and returns \<open>None\<close> when it is used up.
  A result \<open>Some (Inl e)\<close> is a fault, \<open>Some (Inr (r, b))\<close> the returned boolean and the
  backtracker after the call.
\<close>

fun Visit :: "nat \<Rightarrow> memory \<Rightarrow> int \<Rightarrow> ptr \<Rightarrow> Backtracker \<Rightarrow> (fault + bool \<times> Backtracker) option"
and Try :: "nat \<Rightarrow> memory \<Rightarrow> int \<Rightarrow> ptr \<Rightarrow> Backtracker \<Rightarrow> (fault + bool \<times> Backtracker) option"
where
  "Visit 0 mem id' p b = None"
| "Visit (Suc k) mem id' p b =
     (case visited_slot b id' p of Inl e \<Rightarrow> Some (Inl e) | Inr (w, m) \<Rightarrow>
      if bt_visited b ! w AND m \<noteq> 0 then Some (Inr (False, b))
      else
        let b1 = b\<lparr>bt_visited := (bt_visited b)[w := bt_visited b ! w OR m]\<rparr> in
        (case prog_inst (bt_prog b1) id' of Inl e \<Rightarrow> Some (Inl e) | Inr ip \<Rightarrow>
          (case Try k mem id' p (b1\<lparr>bt_explored := bt_explored b1 @ [(id', p)]\<rparr>) of
             None \<Rightarrow> None
           | Some (Inl e) \<Rightarrow> Some (Inl e)
           | Some (Inr (True, b2)) \<Rightarrow>
               if bt_longest b2 \<and> \<not> last' ip
               then (case Visit k mem (id' + 1) p b2 of
                       None \<Rightarrow> None
                     | Some (Inl e) \<Rightarrow> Some (Inl e)
                     | Some (Inr (r, b3)) \<Rightarrow> Some (Inr (True, b3)))
               else Some (Inr (True, b2))
           | Some (Inr (False, b2)) \<Rightarrow>
               if \<not> last' ip then Visit k mem (id' + 1) p b2
               else Some (Inr (False, b2)))))"
| "Try 0 mem id' p b = None"
| "Try (Suc k) mem id' p b =
     (let c = (if p < sp_data (bt_text b) + sp_size (bt_text b)
               then uint (mem p) AND 0xFF else - 1) in
      case prog_inst (bt_prog b) id' of Inl e \<Rightarrow> Some (Inl e) | Inr ip \<Rightarrow>
      (case opcode ip of
         kInstAltMatch \<Rightarrow> Some (Inr (False, b))
       | kInstByteRange \<Rightarrow>
           if Matches ip c then Visit k mem (out ip) (p + 1) b
           else Some (Inr (False, b))
       | kInstCapture \<Rightarrow>
           if 0 \<le> cap ip \<and> cap ip < kCapSize
           then (case cap_get b (cap ip) of Inl e \<Rightarrow> Some (Inl e) | Inr q \<Rightarrow>
                  (case cap_set b (cap ip) p of Inl e \<Rightarrow> Some (Inl e) | Inr b1 \<Rightarrow>
                    (case Visit k mem (out ip) p b1 of
                       None \<Rightarrow> None
                     | Some (Inl e) \<Rightarrow> Some (Inl e)
                     | Some (Inr (ret, b2)) \<Rightarrow>
                         (case cap_set b2 (cap ip) q of Inl e \<Rightarrow> Some (Inl e)
                          | Inr b3 \<Rightarrow> Some (Inr (ret, b3))))))
           else Visit k mem (out ip) p b
       | kInstEmptyWidth \<Rightarrow>
           if empty' ip AND NOT (EmptyFlags (bt_prog b) (bt_context b) p) \<noteq> 0
           then Some (Inr (False, b))
           else Visit k mem (out ip) p b
       | kInstNop \<Rightarrow> Visit k mem (out ip) p b
       | kInstMatch \<Rightarrow>
           if bt_endmatch b \<and> p \<noteq> sp_data (bt_context b) + sp_size (bt_context b)
           then Some (Inr (False, b))
           else (case cap_set b 1 p of Inl e \<Rightarrow> Some (Inl e) | Inr b1 \<Rightarrow>
                 if bt_submatch b1 = [] then Some (Inl SubmatchOutOfBounds)
                 else if sp_data (bt_submatch b1 ! 0) = NULL \<or>
                         (bt_longest b1 \<and>
                          p > sp_data (bt_submatch b1 ! 0) + sp_size (bt_submatch b1 ! 0))
                 then (case store_submatch [0 .. bt_nsubmatch b1 - 1] b1 of
                         Inl e \<Rightarrow> Some (Inl e)
                       | Inr b2 \<Rightarrow> Some (Inr (True, b2)))
                 else Some (Inr (True, b1)))
       | kInstFail \<Rightarrow> Some (Inr (False, b))
       | kInstOther x \<Rightarrow> Some (Inl LogFatal)))"

text \<open>
  The loop of the unanchored search,
  \<open>for (p = text.data(); p <= text.data() + text.size(); p++)\<close>, from position \<open>p\<close> on:
  it stops at the first position where \<open>Visit\<close> succeeds, and after one round when \<open>p\<close>
  is the null pointer.
\<close>

function Search_loop ::
  "nat \<Rightarrow> memory \<Rightarrow> StringPiece \<Rightarrow> ptr \<Rightarrow> Backtracker \<Rightarrow> (fault + bool \<times> Backtracker) option"
where
  "Search_loop fuel mem text p b =
     (if p \<le> sp_data text + sp_size text
      then (case cap_set b 0 p of Inl e \<Rightarrow> Some (Inl e) | Inr b1 \<Rightarrow>
             (case Visit fuel mem (start (bt_prog b1)) p b1 of
                None \<Rightarrow> None
              | Some (Inl e) \<Rightarrow> Some (Inl e)
              | Some (Inr (True, b2)) \<Rightarrow> Some (Inr (True, b2))
              | Some (Inr (False, b2)) \<Rightarrow>
                  if p = NULL then Some (Inr (False, b2))
                  else Search_loop fuel mem text (p + 1) b2))
      else Some (Inr (False, b)))"
  by pat_completeness auto
termination
  by (relation "measure (\<lambda>(fuel, mem, text, p, b). sp_data text + sp_size text + 1 - p)") auto

text \<open>
  The number of words of the bitmap that \<open>Search\<close> allocates:
  \<open>nvisited = prog_->size() * static_cast<int>(text.size()+1)\<close>, then
  \<open>nvisited = (nvisited + 31) / 32\<close>.
\<close>

definition nvisited :: "Prog \<Rightarrow> StringPiece \<Rightarrow> fault + int" where
  "nvisited prog text =
     (case chk_int (prog_size prog * int_cast (int (sp_size text) + 1)) of
        Inl e \<Rightarrow> Inl e
      | Inr n \<Rightarrow>
          (case chk_int (n + 31) of Inl e \<Rightarrow> Inl e | Inr n1 \<Rightarrow> Inr (n1 sdiv 32)))"

text \<open>
  The first statements of \<open>Search\<close>: \<open>text_ = text; context_ = context;\<close>
  \<open>if (context_.data() == NULL) context_ = text;\<close>.
  The history \<open>bt_explored\<close> starts empty at each call.
\<close>

definition Search_init :: "Backtracker \<Rightarrow> StringPiece \<Rightarrow> StringPiece \<Rightarrow> Backtracker" where
  "Search_init b0 text context =
     (let b1 = b0\<lparr>bt_explored := [], bt_text := text, bt_context := context\<rparr> in
      if sp_data (bt_context b1) = NULL then b1\<lparr>bt_context := text\<rparr> else b1)"

text \<open>
  \<open>Backtracker::Search\<close>, from the anchor checks on. \<open>submatch\<close> is the contents of the
  caller's array.
  An array of negative length cannot be allocated (\<open>BadAlloc\<close>).
\<close>

definition Search ::
  "nat \<Rightarrow> memory \<Rightarrow> Backtracker \<Rightarrow> StringPiece \<Rightarrow> StringPiece \<Rightarrow> bool \<Rightarrow> bool \<Rightarrow>
   StringPiece list \<Rightarrow> int \<Rightarrow> (fault + bool \<times> Backtracker) option"
where
  "Search fuel mem b0 text context anchored longest submatch nsubmatch =
     (let b2 = Search_init b0 text context in
      if anchor_start (bt_prog b2) \<and> BeginPtr text > BeginPtr (bt_context b2)
      then Some (Inr (False, b2))
      else if anchor_end (bt_prog b2) \<and> EndPtr text < EndPtr (bt_context b2)
      then Some (Inr (False, b2))
      else
        let b3 = b2\<lparr>bt_anchored := anchored \<or> anchor_start (bt_prog b2),
                    bt_longest := longest \<or> anchor_end (bt_prog b2),
                    bt_endmatch := anchor_end (bt_prog b2),
                    bt_submatch := submatch,
                    bt_nsubmatch := nsubmatch\<rparr>
        in
        (case chk_int (2 * bt_nsubmatch b3) of Inl e \<Rightarrow> Some (Inl e) | Inr n2 \<Rightarrow>
         if \<not> n2 < kCapSize then Some (Inl CheckFailed)
         else
           let b4 = b3\<lparr>bt_cap := replicate (nat kCapSize) NULL\<rparr>;
               b5 = (if nsubmatch < 1
                     then b4\<lparr>bt_submatch := [StringPiece0], bt_nsubmatch := 1\<rparr>
                     else b4)
           in
           if bt_submatch b5 = [] then Some (Inl SubmatchOutOfBounds)
           else
             let b6 = b5\<lparr>bt_submatch := (bt_submatch b5)[0 := StringPiece0]\<rparr> in
             (case nvisited (bt_prog b6) text of Inl e \<Rightarrow> Some (Inl e) | Inr nv \<Rightarrow>
              if nv < 0 then Some (Inl BadAlloc)
              else
                let b7 = b6\<lparr>bt_visited := replicate (nat nv) 0\<rparr> in
                if bt_anchored b7
                then (case cap_set b7 0 (sp_data text) of Inl e \<Rightarrow> Some (Inl e)
                      | Inr b8 \<Rightarrow> Visit fuel mem (start (bt_prog b8)) (sp_data text) b8)
                else Search_loop fuel mem text (sp_data text) b7)))"

text \<open>
  \<open>Prog::UnsafeSearchBacktrack\<close>. \<open>match\<close> is the contents of the caller's array;
  the result is the returned boolean and the backtracker after the search, whose
  \<open>bt_submatch\<close> is what \<open>match\<close> points to when the search got to use it.
\<close>

definition UnsafeSearchBacktrack ::
  "nat \<Rightarrow> memory \<Rightarrow> Prog \<Rightarrow> StringPiece \<Rightarrow> StringPiece \<Rightarrow> Anchor \<Rightarrow> MatchKind \<Rightarrow>
   StringPiece list \<Rightarrow> int \<Rightarrow> (fault + bool \<times> Backtracker) option"
where
  "UnsafeSearchBacktrack fuel mem prog text context anchor0 kind match0 nmatch0 =
     (let anchor = (if kind = kFullMatch then kAnchored else anchor0);
          match = (if kind = kFullMatch \<and> nmatch0 < 1 then [StringPiece0] else match0);
          nmatch = (if kind = kFullMatch \<and> nmatch0 < 1 then 1 else nmatch0);
          b = Backtracker_new prog;
          anchored = (anchor = kAnchored);
          longest = (kind \<noteq> kFirstMatch)
      in
      case Search fuel mem b text context anchored longest match nmatch of
        None \<Rightarrow> None
      | Some (Inl e) \<Rightarrow> Some (Inl e)
      | Some (Inr (False, b')) \<Rightarrow> Some (Inr (False, b'))
      | Some (Inr (True, b')) \<Rightarrow>
          if kind = kFullMatch \<and> EndPtr (bt_submatch b' ! 0) \<noteq> EndPtr text
          then Some (Inr (False, b'))
          else Some (Inr (True, b')))"

section \<open>The DFA (\<open>re2/dfa.h\<close>)\<close>

text \<open>
  \<open>struct DFA::State\<close>; the members \<open>inst_\<close>, \<open>ninst_\<close>, \<open>flag_\<close>, \<open>next_\<close> are the fields
  \<open>st_inst\<close>, \<open>st_ninst\<close>, \<open>st_flag\<close>, \<open>st_next\<close>. \<open>st_inst\<close> is the array that \<open>inst_\<close>
  points to, \<open>st_next\<close> the successor pointers. States are referred to by pointer: a
  heap maps the address of each allocated state to its contents.
\<close>

record State =
  st_inst :: "int list"
  st_ninst :: int
  st_flag :: "32 word"
  st_next :: "ptr list"

type_synonym heap = "ptr \<Rightarrow> State option"

definition kByteEndText :: int where
  "kByteEndText = 256"

definition kFlagMatch :: "32 word" where
  "kFlagMatch = 0x0100"

definition IsMatch :: "State \<Rightarrow> bool" where
  "IsMatch s = (st_flag s AND kFlagMatch \<noteq> 0)"

text \<open>Reading \<open>a->inst_[i]\<close>: outside the array it is a fault.\<close>

definition inst_at :: "State \<Rightarrow> int \<Rightarrow> fault + int" where
  "inst_at a i =
     (if 0 \<le> i \<and> i < int (length (st_inst a)) then Inr (st_inst a ! nat i)
      else Inl StateOutOfBounds)"

text \<open>
  \<open>HashMix\<close> is declared in \<open>util/mix.h\<close>, which is not among the sources: its
  constructor from a \<open>size_t\<close>, its \<open>Mix\<close> and its \<open>get\<close> are parameters.
\<close>

record 'h HashMix =
  hm_new :: "64 word \<Rightarrow> 'h"
  hm_Mix :: "'h \<Rightarrow> 64 word \<Rightarrow> 'h"
  hm_get :: "'h \<Rightarrow> 64 word"

text \<open>The loop of \<open>StateHash\<close>, from index \<open>i\<close> on: \<open>mix.Mix(a->inst_[i])\<close>.\<close>

function StateHash_loop :: "'h HashMix \<Rightarrow> State \<Rightarrow> int \<Rightarrow> 'h \<Rightarrow> fault + 'h" where
  "StateHash_loop H a i mix =
     (if i < st_ninst a
      then (case inst_at a i of Inl e \<Rightarrow> Inl e
            | Inr x \<Rightarrow> StateHash_loop H a (i + 1) (hm_Mix H mix (word_of_int x)))
      else Inr mix)"
  by pat_completeness auto
termination
  by (relation "measure (\<lambda>(H, a, i, mix). nat (st_ninst a - i))") auto

text \<open>\<open>StateHash::operator()\<close>; \<open>DCHECK(a != NULL)\<close> is a fault on the null pointer.\<close>

definition StateHash :: "'h HashMix \<Rightarrow> heap \<Rightarrow> ptr \<Rightarrow> fault + 64 word" where
  "StateHash H h a =
     (if a = NULL then Inl DCheckFailed
      else case h a of None \<Rightarrow> Inl StateOutOfBounds | Some sa \<Rightarrow>
        (case StateHash_loop H sa 0 (hm_new H (ucast (st_flag sa))) of
           Inl e \<Rightarrow> Inl e
         | Inr mix \<Rightarrow> Inr (hm_get H (hm_Mix H mix 0))))"

text \<open>The loop of \<open>StateEqual\<close>, from index \<open>i\<close> on.\<close>

function StateEqual_loop :: "State \<Rightarrow> State \<Rightarrow> int \<Rightarrow> fault + bool" where
  "StateEqual_loop a b i =
     (if i < st_ninst a
      then (case inst_at a i of Inl e \<Rightarrow> Inl e | Inr x \<Rightarrow>
             (case inst_at b i of Inl e \<Rightarrow> Inl e | Inr y \<Rightarrow>
                if x \<noteq> y then Inr False else StateEqual_loop a b (i + 1)))
      else Inr True)"
  by pat_completeness auto
termination
  by (relation "measure (\<lambda>(a, b, i). nat (st_ninst a - i))") auto

text \<open>\<open>StateEqual::operator()\<close>.\<close>

definition StateEqual :: "heap \<Rightarrow> ptr \<Rightarrow> ptr \<Rightarrow> fault + bool" where
  "StateEqual h a b =
     (if a = NULL \<or> b = NULL then Inl DCheckFailed
      else if a = b then Inr True
      else case h a of None \<Rightarrow> Inl StateOutOfBounds | Some sa \<Rightarrow>
        (case h b of None \<Rightarrow> Inl StateOutOfBounds | Some sb \<Rightarrow>
           if st_flag sa \<noteq> st_flag sb then Inr False
           else if st_ninst sa \<noteq> st_ninst sb then Inr False
           else StateEqual_loop sa sb 0))"

text \<open>
  \<open>DFA::ByteMap\<close>, on the program \<open>prog_\<close> of the DFA. \<open>prog_->bytemap()\<close> is an array of
  bytes; an index outside it is a fault.
\<close>

definition ByteMap :: "Prog \<Rightarrow> int \<Rightarrow> fault + int" where
  "ByteMap prog c =
     (if c = kByteEndText then Inr (bytemap_range prog)
      else if 0 \<le> c \<and> c < int (length (bytemap prog)) then Inr (uint (bytemap prog ! nat c))
      else Inl BytemapOutOfBounds)"

text \<open>
  Modelled from the spec: the byte map of a program (\<open>re2/prog.h\<close> and the compiler
  that fills it are not among the sources) has the 256 entries \<open>bytemap[0..255]\<close>, and
  each of them is a byte-class index in \<open>[0, bytemap_range)\<close>.
\<close>

definition bytemap_ok :: "Prog \<Rightarrow> bool" where
  "bytemap_ok prog \<longleftrightarrow>
     length (bytemap prog) = 256 \<and>
     list_all (\<lambda>x. uint x < bytemap_range prog) (bytemap prog)"

subsection \<open>\<open>DFA::RWLocker\<close>\<close>

text \<open>
  The four operations of \<open>CacheMutex\<close> that \<open>RWLocker\<close> calls. \<open>util/mutex.h\<close> is not among
  the sources; each method of \<open>RWLocker\<close> returns the calls it makes on \<open>mu_\<close>, in order.
\<close>

datatype mutex_op = ReaderLock | ReaderUnlock | WriterLock | WriterUnlock

record RWLocker =
  rw_mu :: ptr
  rw_writing :: bool

definition RWLocker_new :: "ptr \<Rightarrow> RWLocker \<times> mutex_op list" where
  "RWLocker_new mu = (\<lparr>rw_mu = mu, rw_writing = False\<rparr>, [ReaderLock])"

definition RWLocker_delete :: "RWLocker \<Rightarrow> mutex_op list" where
  "RWLocker_delete l = (if \<not> rw_writing l then [ReaderUnlock] else [WriterUnlock])"

definition LockForWriting :: "RWLocker \<Rightarrow> RWLocker \<times> mutex_op list" where
  "LockForWriting l =
     (if \<not> rw_writing l then (l\<lparr>rw_writing := True\<rparr>, [ReaderUnlock, WriterLock])
      else (l, []))"

text \<open>
  Modelled from the spec: \<open>cache_mutex\<close> is a reader-writer lock. What one thread holds
  of it is nothing, the reader lock or the writer lock; an operation that does not fit
  what the thread holds is a misuse (\<open>None\<close>).
\<close>

datatype holding = NotHeld | HeldReading | HeldWriting

fun mutex_step :: "holding \<Rightarrow> mutex_op \<Rightarrow> holding option" where
  "mutex_step NotHeld ReaderLock = Some HeldReading"
| "mutex_step NotHeld WriterLock = Some HeldWriting"
| "mutex_step HeldReading ReaderUnlock = Some NotHeld"
| "mutex_step HeldWriting WriterUnlock = Some NotHeld"
| "mutex_step _ _ = None"

fun mutex_run :: "holding \<Rightarrow> mutex_op list \<Rightarrow> holding option" where
  "mutex_run s [] = Some s"
| "mutex_run s (x # xs) = (case mutex_step s x of None \<Rightarrow> None | Some s' \<Rightarrow> mutex_run s' xs)"

section \<open>Definitions used in the statements\<close>

text \<open>
  A state is well formed when the \<open>ninst_\<close> entries \<open>inst_[0], ..., inst_[ninst_ - 1]\<close>
  exist (\<open>ninst_\<close> is documented as the number of \<open>inst_\<close> pointers);
  \<open>State_insts\<close> is that instruction sequence.
\<close>

definition State_ok :: "State \<Rightarrow> bool" where
  "State_ok s \<longleftrightarrow> st_ninst s \<le> int (length (st_inst s))"

definition State_insts :: "State \<Rightarrow> int list" where
  "State_insts s = take (nat (st_ninst s)) (st_inst s)"

text \<open>What a locker holds of its mutex, as \<open>writing_\<close> records it.\<close>

definition RWLocker_holds :: "RWLocker \<Rightarrow> holding" where
  "RWLocker_holds l = (if rw_writing l then HeldWriting else HeldReading)"

subsection \<open>Example inputs\<close>

text \<open>
  A program for \<open>a+\<close>: instruction 1 reads an \<open>a\<close> and goes to 2; 2 and 3 form an
  alternation (back to 1, or match). The text \<open>aab\<close> lies at addresses 100 to 102.
\<close>

definition ex_inst :: "InstOp \<Rightarrow> int \<Rightarrow> bool \<Rightarrow> Inst" where
  "ex_inst opc o' l =
     \<lparr>opcode = opc, out = o', last' = l, cap = 0, empty' = 0, Matches = (\<lambda>c. c = 97)\<rparr>"

definition ex_prog :: Prog where
  "ex_prog =
     \<lparr>insts = [ex_inst kInstFail 0 True, ex_inst kInstByteRange 2 True,
               ex_inst kInstNop 1 False, ex_inst kInstMatch 0 True],
      start = 1, anchor_start = False, anchor_end = False,
      bytemap = map (\<lambda>c. if c = 97 then 1 else 0) [0 ..< 256], bytemap_range = 2,
      EmptyFlags = (\<lambda>context p. 0)\<rparr>"

definition ex_mem :: memory where
  "ex_mem = (\<lambda>p. if p = 100 \<or> p = 101 then 97 else if p = 102 then 98 else 0)"

definition ex_aab :: StringPiece where
  "ex_aab = \<lparr>sp_data = 100, sp_size = 3\<rparr>"

definition ex_aa :: StringPiece where
  "ex_aa = \<lparr>sp_data = 100, sp_size = 2\<rparr>"

definition ex_ab :: StringPiece where
  "ex_ab = \<lparr>sp_data = 101, sp_size = 2\<rparr>"

text \<open>Two states at addresses 1 and 2 that differ in their successors only.\<close>

definition ex_heap :: heap where
  "ex_heap =
     (\<lambda>a. if a = 1 then Some \<lparr>st_inst = [1, 3], st_ninst = 2, st_flag = 0x100, st_next = [0, 0]\<rparr>
          else if a = 2 then Some \<lparr>st_inst = [1, 3], st_ninst = 2, st_flag = 0x100, st_next = [1, 2]\<rparr>
          else None)"

text \<open>A mixer to run \<open>StateHash\<close> on: multiply by 31 and add.\<close>

definition ex_mix :: "(64 word) HashMix" where
  "ex_mix = \<lparr>hm_new = (\<lambda>v. v + 83), hm_Mix = (\<lambda>h v. h * 31 + v), hm_get = (\<lambda>h. h)\<rparr>"

text \<open>The outcome of a search without the backtracker: the fault or the boolean.\<close>

definition outcome :: "(fault + bool \<times> Backtracker) option \<Rightarrow> (fault + bool) option" where
  "outcome res = map_option (map_sum (\<lambda>e. e) fst) res"

subsection \<open>Parts of the backtracker named for the proofs\<close>

text \<open>
  The two assignments of \<open>Visit\<close> before it calls \<open>Try\<close>:
  \<open>visited_[n/32] |= 1 << (n&31)\<close>, and the history entry of the pair.
\<close>

definition mark :: "Backtracker \<Rightarrow> nat \<Rightarrow> 32 word \<Rightarrow> int \<Rightarrow> ptr \<Rightarrow> Backtracker" where
  "mark b w m i p = b\<lparr>bt_visited := (bt_visited b)[w := bt_visited b ! w OR m],
               bt_explored := bt_explored b @ [(i, p)]\<rparr>"

text \<open>
  What \<open>Visit\<close> does with the result of \<open>Try(id', p)\<close>: on a match, with \<open>longest_\<close> and
  an instruction that is not the last of its list, it still calls \<open>Visit(id' + 1, p)\<close> and
  returns true; on a match otherwise it returns true; on a failure it goes on with
  \<open>Visit(id' + 1, p)\<close> unless the instruction is the last of its list.
\<close>

definition after_Try ::
  "nat \<Rightarrow> memory \<Rightarrow> int \<Rightarrow> ptr \<Rightarrow> Inst \<Rightarrow> (fault + bool \<times> Backtracker) option \<Rightarrow>
   (fault + bool \<times> Backtracker) option" where
  "after_Try k mem i p ip res =
     (case res of
        None \<Rightarrow> None
      | Some (Inl e) \<Rightarrow> Some (Inl e)
      | Some (Inr (True, b2)) \<Rightarrow>
          if bt_longest b2 \<and> \<not> last' ip
          then (case Visit k mem (i + 1) p b2 of
                  None \<Rightarrow> None
                | Some (Inl e) \<Rightarrow> Some (Inl e)
                | Some (Inr (r, b3)) \<Rightarrow> Some (Inr (True, b3)))
          else Some (Inr (True, b2))
      | Some (Inr (False, b2)) \<Rightarrow>
          if \<not> last' ip then Visit k mem (i + 1) p b2
          else Some (Inr (False, b2)))"

text \<open>
  The end of the \<open>kInstCapture\<close> case of \<open>Try\<close>: \<open>cap_[ip->cap()] = q\<close> after the
  recursive call, and its result returned.
\<close>

definition restore_cap ::
  "Inst \<Rightarrow> ptr \<Rightarrow> (fault + bool \<times> Backtracker) option \<Rightarrow> (fault + bool \<times> Backtracker) option" where
  "restore_cap ip q res =
     (case res of
        None \<Rightarrow> None
      | Some (Inl e) \<Rightarrow> Some (Inl e)
      | Some (Inr (ret, b2)) \<Rightarrow>
          (case cap_set b2 (cap ip) q of Inl e \<Rightarrow> Some (Inl e)
           | Inr b3 \<Rightarrow> Some (Inr (ret, b3))))"

text \<open>
  The \<open>kInstMatch\<close> case of \<open>Try\<close> once the \<open>endmatch_\<close> test has passed: \<open>cap_[1] = p\<close>,
  and the registers copied to \<open>submatch_\<close> when this is the first match or a longer one.
\<close>

definition Try_match :: "Backtracker \<Rightarrow> ptr \<Rightarrow> (fault + bool \<times> Backtracker) option" where
  "Try_match b p =
     (case cap_set b 1 p of Inl e \<Rightarrow> Some (Inl e) | Inr b1 \<Rightarrow>
        if bt_submatch b1 = [] then Some (Inl SubmatchOutOfBounds)
        else if sp_data (bt_submatch b1 ! 0) = NULL \<or>
                (bt_longest b1 \<and> p > sp_data (bt_submatch b1 ! 0) + sp_size (bt_submatch b1 ! 0))
        then (case store_submatch [0 .. bt_nsubmatch b1 - 1] b1 of
                Inl e \<Rightarrow> Some (Inl e)
              | Inr b2 \<Rightarrow> Some (Inr (True, b2)))
        else Some (Inr (True, b1)))"

text \<open>
  One round of the loop of \<open>Search\<close> after its call of \<open>Visit\<close>: return on a match,
  stop at a null pointer, else go on from \<open>p + 1\<close>.
\<close>

definition Search_next ::
  "nat \<Rightarrow> memory \<Rightarrow> StringPiece \<Rightarrow> ptr \<Rightarrow> (fault + bool \<times> Backtracker) option \<Rightarrow>
   (fault + bool \<times> Backtracker) option" where
  "Search_next fuel mem text p res =
     (case res of
        None \<Rightarrow> None
      | Some (Inl e) \<Rightarrow> Some (Inl e)
      | Some (Inr (True, b2)) \<Rightarrow> Some (Inr (True, b2))
      | Some (Inr (False, b2)) \<Rightarrow>
          if p = NULL then Some (Inr (False, b2))
          else Search_loop fuel mem text (p + 1) b2)"

text \<open>
  The two anchor tests at the head of \<open>Search\<close>, on the context in force (\<open>text\<close> when
  the caller's context has null data).
\<close>

definition Search_rejects :: "Prog \<Rightarrow> StringPiece \<Rightarrow> StringPiece \<Rightarrow> bool" where
  "Search_rejects prog text context \<longleftrightarrow>
     (let ctx = (if sp_data context = NULL then text else context) in
      (anchor_start prog \<and> BeginPtr text > BeginPtr ctx) \<or>
      (anchor_end prog \<and> EndPtr text < EndPtr ctx))"

text \<open>
  The end of \<open>Search\<close>, once the bitmap and the registers are set up: one call of
  \<open>Visit\<close> at the start of the text when anchored, the loop over the text otherwise.
\<close>

definition Search_start ::
  "nat \<Rightarrow> memory \<Rightarrow> StringPiece \<Rightarrow> Backtracker \<Rightarrow> (fault + bool \<times> Backtracker) option" where
  "Search_start fuel mem text b7 =
     (if bt_anchored b7
      then (case cap_set b7 0 (sp_data text) of Inl e \<Rightarrow> Some (Inl e)
            | Inr b8 \<Rightarrow> Visit fuel mem (start (bt_prog b8)) (sp_data text) b8)
      else Search_loop fuel mem text (sp_data text) b7)"

text \<open>
  A depth that is enough for \<open>Search\<close>: twice the number of bits of the bitmap, plus one.
\<close>

definition Search_fuel :: "Prog \<Rightarrow> StringPiece \<Rightarrow> nat" where
  "Search_fuel prog text =
     (case nvisited prog text of Inl e \<Rightarrow> 0 | Inr nv \<Rightarrow> 64 * nat nv + 1)"

text \<open>The number of words of the bitmap a search leaves, when it returns a result.\<close>

definition visited_words :: "(fault + bool \<times> Backtracker) option \<Rightarrow> int option" where
  "visited_words res =
     (case res of Some (Inr (r, b')) \<Rightarrow> Some (int (length (bt_visited b'))) | _ \<Rightarrow> None)"
text \<open>
  \<open>submatch[0]\<close> after a search that returned true, and the history of the pairs
  explored after a search that returned.
\<close>

definition first_match :: "(fault + bool \<times> Backtracker) option \<Rightarrow> StringPiece option" where
  "first_match res =
     (case res of Some (Inr (True, b')) \<Rightarrow> Some (bt_submatch b' ! 0) | _ \<Rightarrow> None)"

definition explored :: "(fault + bool \<times> Backtracker) option \<Rightarrow> (int \<times> ptr) list" where
  "explored res = (case res of Some (Inr (r, b')) \<Rightarrow> bt_explored b' | _ \<Rightarrow> [])"

subsection \<open>The bitmap, the history and the registers\<close>

text \<open>
  The bits that are set in the bitmap, as (word, bit) positions, and the number of bits
  that are not set: the measure that bounds the depth of the recursion.
\<close>

definition vbits :: "32 word list \<Rightarrow> (nat \<times> nat) set" where
  "vbits vs = {(j, i). j < length vs \<and> i < 32 \<and> bit (vs ! j) i}"

definition unvisited :: "32 word list \<Rightarrow> nat" where
  "unvisited vs = 32 * length vs - card (vbits vs)"

text \<open>
  What a call of \<open>Visit\<close> or \<open>Try\<close> leaves as it is: the search parameters and the sizes
  of the arrays; the bitmap only gains bits.
\<close>

definition frame :: "Backtracker \<Rightarrow> Backtracker \<Rightarrow> bool" where
  "frame b b' \<longleftrightarrow>
     bt_prog b' = bt_prog b \<and> bt_text b' = bt_text b \<and> bt_context b' = bt_context b \<and>
     bt_anchored b' = bt_anchored b \<and> bt_longest b' = bt_longest b \<and>
     bt_endmatch b' = bt_endmatch b \<and> bt_nsubmatch b' = bt_nsubmatch b \<and>
     length (bt_cap b') = length (bt_cap b) \<and>
     length (bt_submatch b') = length (bt_submatch b) \<and>
     length (bt_visited b') = length (bt_visited b) \<and>
     vbits (bt_visited b) \<subseteq> vbits (bt_visited b')"

text \<open>The bit of the pair \<open>(i, p)\<close> exists in the bitmap and is set.\<close>

definition slot_set :: "Backtracker \<Rightarrow> int \<Rightarrow> ptr \<Rightarrow> bool" where
  "slot_set b i p \<longleftrightarrow>
     (case visited_slot b i p of Inl e \<Rightarrow> False | Inr (w, m) \<Rightarrow> bt_visited b ! w AND m \<noteq> 0)"

text \<open>
  The history holds no pair twice, and every pair in it has its bit set.
\<close>

definition explored_ok :: "Backtracker \<Rightarrow> bool" where
  "explored_ok b \<longleftrightarrow>
     distinct (bt_explored b) \<and> list_all (\<lambda>(i, p). slot_set b i p) (bt_explored b)"

text \<open>
  The state of the registers that \<open>Search\<close> establishes: \<open>cap_\<close> has \<open>arraysize(cap_)\<close>
  slots and \<open>2 * nsubmatch_\<close> is below it.
\<close>

definition cap_ok :: "Backtracker \<Rightarrow> bool" where
  "cap_ok b \<longleftrightarrow> int (length (bt_cap b)) = kCapSize \<and> 2 * bt_nsubmatch b < kCapSize"

text \<open>
  The number of the pair \<open>(i, p)\<close> among the \<open>prog.size \<times> (text.size() + 1)\<close> pairs, in
  unbounded arithmetic, and the pairs in range: an instruction of the program, a
  position of the text or its end.
\<close>

definition pair_bit :: "StringPiece \<Rightarrow> int \<Rightarrow> ptr \<Rightarrow> int" where
  "pair_bit tx i p = i * (int (sp_size tx) + 1) + (int p - int (sp_data tx))"

definition valid_pair :: "Prog \<Rightarrow> StringPiece \<Rightarrow> int \<Rightarrow> ptr \<Rightarrow> bool" where
  "valid_pair prog tx i p \<longleftrightarrow>
     0 \<le> i \<and> i < prog_size prog \<and> sp_data tx \<le> p \<and> p \<le> sp_data tx + sp_size tx"
subsection \<open>More example inputs\<close>

text \<open>A backtracker in longest-match mode over \<open>ex_aab\<close>, with a clear bitmap of one word.\<close>

definition ex_bt :: Backtracker where
  "ex_bt = (Backtracker_new ex_prog)
     \<lparr>bt_text := ex_aab, bt_context := ex_aab, bt_longest := True,
      bt_submatch := [StringPiece0], bt_nsubmatch := 1, bt_visited := [0]\<rparr>"

text \<open>
  A text of \<open>2^32\<close> bytes at address 100: \<open>text.size() + 1\<close> does not fit \<open>int\<close>.
\<close>

definition ex_huge :: StringPiece where
  "ex_huge = \<lparr>sp_data = 100, sp_size = 4294967296\<rparr>"
text \<open>
  A program anchored at the end whose first instruction is an empty-width test for the
  beginning of the context, then \<open>a+\<close>: what it matches depends on the context.
\<close>

definition ctx_prog :: Prog where
  "ctx_prog =
     \<lparr>insts = [(ex_inst kInstEmptyWidth 1 True)\<lparr>empty' := 1\<rparr>, ex_inst kInstByteRange 2 True,
               ex_inst kInstNop 1 False, ex_inst kInstMatch 0 True],
      start = 0, anchor_start = False, anchor_end = True,
      bytemap = map (\<lambda>c. if c = 97 then 1 else 0) [0 ..< 256], bytemap_range = 2,
      EmptyFlags = (\<lambda>context p. if p = BeginPtr context then 1 else 0)\<rparr>"

text \<open>
  A program for \<open>ab\<close>, and a memory that holds \<open>aXabab\<close> at addresses 100 to 105 (and
  \<open>X\<close> elsewhere): the leftmost \<open>ab\<close> is at 102.
\<close>

definition ab_prog :: Prog where
  "ab_prog =
     \<lparr>insts = [ex_inst kInstFail 0 True, ex_inst kInstByteRange 2 True,
               (ex_inst kInstByteRange 3 True)\<lparr>Matches := (\<lambda>c. c = 98)\<rparr>,
               ex_inst kInstMatch 0 True],
      start = 1, anchor_start = False, anchor_end = False,
      bytemap = map (\<lambda>c. if c = 97 then 1 else if c = 98 then 2 else 0) [0 ..< 256],
      bytemap_range = 3,
      EmptyFlags = (\<lambda>context p. 0)\<rparr>"

definition ab_mem :: memory where
  "ab_mem = (\<lambda>p. if p = 100 \<or> p = 102 \<or> p = 104 then 97
                  else if p = 103 \<or> p = 105 then 98 else 88)"

definition ex_aXabab :: StringPiece where
  "ex_aXabab = \<lparr>sp_data = 100, sp_size = 6\<rparr>"

text \<open>
  A text of \<open>2^29\<close> bytes: \<open>text.size() + 1\<close> fits \<open>int\<close>, four times it does not.
\<close>

definition ex_half :: StringPiece where
  "ex_half = \<lparr>sp_data = 100, sp_size = 536870912\<rparr>"

text \<open>The backtracker of a search of \<open>ab_prog\<close> over \<open>ex_huge\<close>, with the bitmap it gets.\<close>

definition ab_bt_huge :: Backtracker where
  "ab_bt_huge = (Backtracker_new ab_prog)\<lparr>bt_text := ex_huge, bt_context := ex_huge,
                   bt_visited := [0]\<rparr>"

text \<open>
  The backtracker as \<open>Search\<close> sets it up over \<open>ex_aab\<close> when \<open>nsubmatch\<close> is \<open>2^30\<close> and
  the check of \<open>2 * nsubmatch_\<close> lets it through.
\<close>

definition ex_bt_overflow :: Backtracker where
  "ex_bt_overflow = (Backtracker_new ex_prog)
     \<lparr>bt_text := ex_aab, bt_context := ex_aab,
      bt_submatch := replicate 1073741824 StringPiece0, bt_nsubmatch := 1073741824,
      bt_visited := [0]\<rparr>"

section \<open>The search set-up of the backtracker\<close>

text \<open>
  C5. \<open>Backtracker::Search\<close> returns false at once, for any fuel, when the program has
  \<open>anchor_start\<close> and the text begins strictly after the context, or has \<open>anchor_end\<close> and
  the text ends strictly before the context: the backtracker it returns is the one it
  was called on with only \<open>text_\<close> and \<open>context_\<close> assigned (and the history empty), so no
  bitmap was allocated, no register or submatch written and no match attempted.
  The context is the one in force at the checks: \<open>text\<close> when the caller's context has
  null data, the caller's context otherwise.
\<close>

theorem Search_anchor_reject:
  assumes "ctx = (if sp_data context = NULL then text else context)"
    and "(anchor_start (bt_prog b) \<and> BeginPtr text > BeginPtr ctx) \<or>
         (anchor_end (bt_prog b) \<and> EndPtr text < EndPtr ctx)"
  shows "Search fuel mem b text context anchored longest submatch nsubmatch =
           Some (Inr (False, b\<lparr>bt_explored := [], bt_text := text, bt_context := ctx\<rparr>))"
  using assms by (auto simp: Search_def Search_init_def Let_def)

theorem Search_anchor_reject_witness:
  "outcome (Search 0 ex_mem (Backtracker_new (ex_prog\<lparr>anchor_start := True\<rparr>))
              ex_ab ex_aab False False [] 0) = Some (Inr False)"
  using Search_anchor_reject[of ex_aab ex_aab ex_ab
      "Backtracker_new (ex_prog\<lparr>anchor_start := True\<rparr>)" 0 ex_mem False False "[]" 0]
  by (simp add: NULL_def BeginPtr_def Backtracker_new_def ex_aab_def ex_ab_def outcome_def)

text \<open>
  C2. With \<open>kind = kFullMatch\<close>, \<open>Prog::UnsafeSearchBacktrack\<close> runs the search anchored
  (and longest), whatever anchor the caller asked for, on a match array of at least one
  entry; it returns true exactly when that search returns true and \<open>match[0]\<close> ends at
  the end of the text. A search that succeeds with \<open>match[0]\<close> ending elsewhere, in
  particular before the end of the text, gives false.
\<close>

theorem UnsafeSearchBacktrack_full_match:
  "UnsafeSearchBacktrack fuel mem prog text context anchor kFullMatch match nmatch =
     (case Search fuel mem (Backtracker_new prog) text context True True
             (if nmatch < 1 then [StringPiece0] else match) (if nmatch < 1 then 1 else nmatch) of
        None \<Rightarrow> None
      | Some (Inl e) \<Rightarrow> Some (Inl e)
      | Some (Inr (r, b')) \<Rightarrow>
          Some (Inr (r \<and> EndPtr (bt_submatch b' ! 0) = EndPtr text, b')))"
  by (auto simp: UnsafeSearchBacktrack_def Let_def split: option.splits sum.splits bool.splits)

theorem UnsafeSearchBacktrack_full_match_witness:
  "outcome (UnsafeSearchBacktrack 64 ex_mem ex_prog ex_aab ex_aab kUnanchored kFullMatch [] 0)
     = Some (Inr False) \<and>
   outcome (Search 64 ex_mem (Backtracker_new ex_prog) ex_aab ex_aab True True [StringPiece0] 1)
     = Some (Inr True) \<and>
   outcome (UnsafeSearchBacktrack 64 ex_mem ex_prog ex_aa ex_aab kUnanchored kFullMatch [] 0)
     = Some (Inr True)"
  unfolding UnsafeSearchBacktrack_full_match by code_simp

section \<open>DFA states: equality and hash\<close>

lemma StateEqual_loop_drop:
  "0 \<le> i \<Longrightarrow> State_ok a \<Longrightarrow> State_ok b \<Longrightarrow> st_ninst a = st_ninst b \<Longrightarrow>
   StateEqual_loop a b i = Inr (drop (nat i) (State_insts a) = drop (nat i) (State_insts b))"
proof (induction a b i rule: StateEqual_loop.induct)
  case (1 a b i)
  show ?case
  proof (cases "i < st_ninst a")
    case False
    with "1.prems" show ?thesis
      by (subst StateEqual_loop.simps) (simp add: State_ok_def State_insts_def)
  next
    case True
    with "1.prems" have la: "nat i < length (State_insts a)" and lb: "nat i < length (State_insts b)"
      by (simp_all add: State_ok_def State_insts_def)
    have na: "State_insts a ! nat i = st_inst a ! nat i" and nb: "State_insts b ! nat i = st_inst b ! nat i"
      using True "1.prems" by (simp_all add: State_insts_def)
    have "drop (nat i) (State_insts a) = State_insts a ! nat i # drop (Suc (nat i)) (State_insts a)"
      using la by (simp add: Cons_nth_drop_Suc)
    then have da: "drop (nat i) (State_insts a) = st_inst a ! nat i # drop (nat (i + 1)) (State_insts a)"
      using na "1.prems"(1) by (simp add: nat_add_distrib)
    have "drop (nat i) (State_insts b) = State_insts b ! nat i # drop (Suc (nat i)) (State_insts b)"
      using lb by (simp add: Cons_nth_drop_Suc)
    then have db: "drop (nat i) (State_insts b) = st_inst b ! nat i # drop (nat (i + 1)) (State_insts b)"
      using nb "1.prems"(1) by (simp add: nat_add_distrib)
    have ia: "inst_at a i = Inr (st_inst a ! nat i)" and ib: "inst_at b i = Inr (st_inst b ! nat i)"
      using True "1.prems" by (simp_all add: inst_at_def State_ok_def)
    show ?thesis
    proof (cases "st_inst a ! nat i = st_inst b ! nat i")
      case False
      then show ?thesis
        using True ia ib da db by (subst StateEqual_loop.simps) simp
    next
      case same: True
      have "StateEqual_loop a b (i + 1) =
              Inr (drop (nat (i + 1)) (State_insts a) = drop (nat (i + 1)) (State_insts b))"
        using "1.IH"[OF True ia ib] same "1.prems" by simp
      then show ?thesis
        using True ia ib da db same by (subst StateEqual_loop.simps) simp
    qed
  qed
qed

lemma StateEqual_char:
  assumes "a \<noteq> NULL" "b \<noteq> NULL" "h a = Some sa" "h b = Some sb" "State_ok sa" "State_ok sb"
  shows "StateEqual h a b =
           Inr (st_flag sa = st_flag sb \<and> st_ninst sa = st_ninst sb \<and>
                State_insts sa = State_insts sb)"
proof (cases "a = b")
  case True
  with assms show ?thesis by (simp add: StateEqual_def)
next
  case False
  show ?thesis
  proof (cases "st_flag sa = st_flag sb \<and> st_ninst sa = st_ninst sb")
    case True
    then have "StateEqual_loop sa sb 0 = Inr (State_insts sa = State_insts sb)"
      using StateEqual_loop_drop[of 0 sa sb] assms by simp
    with True False assms show ?thesis by (simp add: StateEqual_def)
  next
    case False
    with \<open>a \<noteq> b\<close> assms show ?thesis by (auto simp: StateEqual_def)
  qed
qed

text \<open>
  C4. For non-null pointers \<open>a\<close> and \<open>b\<close> to well-formed states, \<open>StateEqual\<close> returns
  true exactly when the two states have the same \<open>flag_\<close>, the same \<open>ninst_\<close> and the
  same instructions \<open>inst_[0 .. ninst_)\<close>. Nothing else takes part: replacing the
  successor arrays \<open>next_\<close> of the two states by any others leaves the result unchanged.
\<close>

theorem StateEqual_flag_inst:
  assumes "a \<noteq> NULL" "b \<noteq> NULL" "h a = Some sa" "h b = Some sb" "State_ok sa" "State_ok sb"
  shows "StateEqual h a b =
           Inr (st_flag sa = st_flag sb \<and> st_ninst sa = st_ninst sb \<and>
                State_insts sa = State_insts sb)
         \<and> (\<forall>h'. h' a = Some (sa\<lparr>st_next := na\<rparr>) \<and> h' b = Some (sb\<lparr>st_next := nb\<rparr>) \<longrightarrow>
               StateEqual h' a b = StateEqual h a b)"
proof -
  have 1: "StateEqual h a b =
           Inr (st_flag sa = st_flag sb \<and> st_ninst sa = st_ninst sb \<and>
                State_insts sa = State_insts sb)"
    using assms by (rule StateEqual_char)
  have "StateEqual h' a b = StateEqual h a b"
    if "h' a = Some (sa\<lparr>st_next := na\<rparr>)" "h' b = Some (sb\<lparr>st_next := nb\<rparr>)" for h'
  proof -
    have "State_ok (sa\<lparr>st_next := na\<rparr>)" "State_ok (sb\<lparr>st_next := nb\<rparr>)"
      using assms by (simp_all add: State_ok_def)
    from StateEqual_char[of a b h' "sa\<lparr>st_next := na\<rparr>" "sb\<lparr>st_next := nb\<rparr>"]
      assms(1,2) that this 1
    show ?thesis by (simp add: State_insts_def)
  qed
  with 1 show ?thesis by blast
qed

theorem StateEqual_flag_inst_witness:
  "StateEqual ex_heap 1 2 = Inr True \<and>
   StateEqual (ex_heap(2 := Some \<lparr>st_inst = [1, 4], st_ninst = 2, st_flag = 0x100,
                                   st_next = [1, 2]\<rparr>)) 1 2 = Inr False"
  using
    StateEqual_flag_inst[of 1 2 ex_heap
      "\<lparr>st_inst = [1, 3], st_ninst = 2, st_flag = 0x100, st_next = [0, 0]\<rparr>"
      "\<lparr>st_inst = [1, 3], st_ninst = 2, st_flag = 0x100, st_next = [1, 2]\<rparr>"]
    StateEqual_flag_inst[of 1 2
      "ex_heap(2 := Some \<lparr>st_inst = [1, 4], st_ninst = 2, st_flag = 0x100, st_next = [1, 2]\<rparr>)"
      "\<lparr>st_inst = [1, 3], st_ninst = 2, st_flag = 0x100, st_next = [0, 0]\<rparr>"
      "\<lparr>st_inst = [1, 4], st_ninst = 2, st_flag = 0x100, st_next = [1, 2]\<rparr>"]
  by (simp add: ex_heap_def NULL_def State_ok_def State_insts_def)

lemma StateHash_loop_foldl:
  "0 \<le> i \<Longrightarrow> State_ok a \<Longrightarrow>
   StateHash_loop H a i mix =
     Inr (foldl (\<lambda>m x. hm_Mix H m (word_of_int x)) mix (drop (nat i) (State_insts a)))"
proof (induction H a i mix rule: StateHash_loop.induct)
  case (1 H a i mix)
  show ?case
  proof (cases "i < st_ninst a")
    case False
    with "1.prems" show ?thesis
      by (subst StateHash_loop.simps) (simp add: State_ok_def State_insts_def)
  next
    case True
    with "1.prems" have la: "nat i < length (State_insts a)"
      by (simp add: State_ok_def State_insts_def)
    have na: "State_insts a ! nat i = st_inst a ! nat i"
      using True "1.prems" by (simp add: State_insts_def)
    have "drop (nat i) (State_insts a) = State_insts a ! nat i # drop (Suc (nat i)) (State_insts a)"
      using la by (simp add: Cons_nth_drop_Suc)
    then have da: "drop (nat i) (State_insts a) = st_inst a ! nat i # drop (nat (i + 1)) (State_insts a)"
      using na "1.prems"(1) by (simp add: nat_add_distrib)
    have ia: "inst_at a i = Inr (st_inst a ! nat i)"
      using True "1.prems" by (simp add: inst_at_def State_ok_def)
    show ?thesis
      using "1.IH"[OF True ia] "1.prems" True ia da
      by (subst StateHash_loop.simps) simp
  qed
qed

lemma StateHash_char:
  assumes "a \<noteq> NULL" "h a = Some sa" "State_ok sa"
  shows "StateHash H h a =
     Inr (hm_get H (hm_Mix H
            (foldl (\<lambda>m x. hm_Mix H m (word_of_int x)) (hm_new H (ucast (st_flag sa)))
               (State_insts sa))
            0))"
  using assms StateHash_loop_foldl[of 0 sa H] by (simp add: StateHash_def)

text \<open>
  C9. Whatever the mixing function, the hash of a well-formed state is computed from
  its \<open>flag_\<close> and its instructions \<open>inst_[0 .. ninst_)\<close> alone, so two non-null states
  that \<open>StateEqual\<close> reports equal have the same \<open>StateHash\<close>.
\<close>

theorem StateHash_respects_StateEqual:
  assumes "a \<noteq> NULL" "b \<noteq> NULL" "h a = Some sa" "h b = Some sb" "State_ok sa" "State_ok sb"
    and "StateEqual h a b = Inr True"
  shows "StateHash H h a = StateHash H h b \<and>
         StateHash H h a =
           Inr (hm_get H (hm_Mix H
             (foldl (\<lambda>m x. hm_Mix H m (word_of_int x)) (hm_new H (ucast (st_flag sa)))
                (take (nat (st_ninst sa)) (st_inst sa)))
             0))"
proof -
  from StateEqual_char[of a b h sa sb] assms
  have "st_flag sa = st_flag sb" "State_insts sa = State_insts sb" by simp_all
  then show ?thesis
    using StateHash_char[of a h sa H] StateHash_char[of b h sb H] assms(1-6)
    by (simp add: State_insts_def)
qed

theorem StateHash_respects_StateEqual_witness:
  "StateEqual ex_heap 1 2 = Inr True \<and>
   StateHash ex_mix ex_heap 1 = StateHash ex_mix ex_heap 2 \<and>
   StateHash ex_mix ex_heap 1 = Inr 10100203"
proof -
  have e: "StateEqual ex_heap 1 2 = Inr True" by code_simp
  have "StateHash ex_mix ex_heap 1 = Inr 10100203" by code_simp
  with e StateHash_respects_StateEqual[of 1 2 ex_heap
      "\<lparr>st_inst = [1, 3], st_ninst = 2, st_flag = 0x100, st_next = [0, 0]\<rparr>"
      "\<lparr>st_inst = [1, 3], st_ninst = 2, st_flag = 0x100, st_next = [1, 2]\<rparr>" ex_mix]
  show ?thesis by (simp add: ex_heap_def NULL_def State_ok_def)
qed

section \<open>Byte classes\<close>

text \<open>
  C8. On a program whose byte map is as the specification describes it, \<open>DFA::ByteMap\<close>
  sends each byte \<open>c\<close> of \<open>[0, 255]\<close> to \<open>bytemap()[c]\<close>, a class index in
  \<open>[0, bytemap_range)\<close>; on any program it sends \<open>kByteEndText = 256\<close> to \<open>bytemap_range\<close>,
  the index just past those of the byte classes.
\<close>

theorem ByteMap_classes:
  "(bytemap_ok prog \<and> 0 \<le> c \<and> c \<le> 255 \<longrightarrow>
      ByteMap prog c = Inr (uint (bytemap prog ! nat c)) \<and>
      0 \<le> uint (bytemap prog ! nat c) \<and> uint (bytemap prog ! nat c) < bytemap_range prog)
   \<and> kByteEndText = 256
   \<and> ByteMap prog kByteEndText = Inr (bytemap_range prog)"
  by (auto simp: ByteMap_def bytemap_ok_def kByteEndText_def list_all_length)

theorem ByteMap_classes_witness:
  "bytemap_ok ex_prog \<and> ByteMap ex_prog 97 = Inr 1 \<and> ByteMap ex_prog 98 = Inr 0 \<and>
   ByteMap ex_prog 256 = Inr 2"
proof -
  have ok: "bytemap_ok ex_prog" by code_simp
  have v: "ByteMap ex_prog 97 = Inr 1" "ByteMap ex_prog 98 = Inr 0" by code_simp+
  have r: "bytemap_range ex_prog = 2" by (simp add: ex_prog_def)
  from ok v r ByteMap_classes[of ex_prog 97] show ?thesis
    by (simp add: kByteEndText_def)
qed

section \<open>The reader-writer locker\<close>

text \<open>
  C7. The constructor of \<open>RWLocker\<close> takes the reader lock. \<open>LockForWriting\<close> (the
  specification's \<open>UpgradeToWriting\<close>), when the locker is not writing, calls
  \<open>ReaderUnlock\<close> and then \<open>WriterLock\<close>: after the first of the two calls the locker
  holds nothing, after the second it holds the writer lock. When the locker is writing
  already, and so at every call after the first, it does nothing. The destructor
  releases the lock in the mode held.
\<close>

theorem RWLocker_protocol:
  "(case RWLocker_new mu of (l0, ops) \<Rightarrow>
      ops = [ReaderLock] \<and> \<not> rw_writing l0 \<and> mutex_run NotHeld ops = Some (RWLocker_holds l0))
   \<and> (\<not> rw_writing l \<longrightarrow>
        LockForWriting l = (l\<lparr>rw_writing := True\<rparr>, [ReaderUnlock, WriterLock]) \<and>
        mutex_run (RWLocker_holds l) [ReaderUnlock] = Some NotHeld \<and>
        mutex_run NotHeld [WriterLock] = Some (RWLocker_holds (fst (LockForWriting l))))
   \<and> rw_writing (fst (LockForWriting l))
   \<and> (rw_writing l \<longrightarrow> LockForWriting l = (l, []))
   \<and> LockForWriting (fst (LockForWriting l)) = (fst (LockForWriting l), [])
   \<and> RWLocker_delete l = (if rw_writing l then [WriterUnlock] else [ReaderUnlock])
   \<and> mutex_run (RWLocker_holds l) (RWLocker_delete l) = Some NotHeld"
  by (simp add: RWLocker_new_def LockForWriting_def RWLocker_delete_def RWLocker_holds_def)

theorem RWLocker_protocol_witness:
  "mutex_run NotHeld
     (snd (RWLocker_new 7) @ snd (LockForWriting (fst (RWLocker_new 7))) @
      snd (LockForWriting (fst (LockForWriting (fst (RWLocker_new 7))))) @
      RWLocker_delete (fst (LockForWriting (fst (LockForWriting (fst (RWLocker_new 7)))))))
     = Some NotHeld \<and>
   snd (LockForWriting (fst (RWLocker_new 7))) = [ReaderUnlock, WriterLock] \<and>
   snd (LockForWriting (fst (LockForWriting (fst (RWLocker_new 7))))) = []"
  using RWLocker_protocol[of 7 "fst (RWLocker_new 7)"]
  by (simp add: RWLocker_new_def RWLocker_delete_def LockForWriting_def RWLocker_holds_def)

section \<open>The recursion of \<open>Visit\<close> and \<open>Try\<close>\<close>

text \<open>
  The bodies of \<open>Visit\<close> and \<open>Try\<close> by cases, then what every call preserves, the bound
  on the depth of the recursion, the history of the pairs explored, and the accesses
  to the registers.
\<close>

lemma Visit_Suc_cases:
  obtains (fault) e where "visited_slot b i p = Inl e" "Visit (Suc k) mem i p b = Some (Inl e)"
  | (pruned) w m where "visited_slot b i p = Inr (w, m)" "bt_visited b ! w AND m \<noteq> 0"
      "Visit (Suc k) mem i p b = Some (Inr (False, b))"
  | (bad_inst) w m e where "visited_slot b i p = Inr (w, m)" "bt_visited b ! w AND m = 0"
      "prog_inst (bt_prog b) i = Inl e" "Visit (Suc k) mem i p b = Some (Inl e)"
  | (explore) w m ip where "visited_slot b i p = Inr (w, m)" "bt_visited b ! w AND m = 0"
      "prog_inst (bt_prog b) i = Inr ip"
      "Visit (Suc k) mem i p b = after_Try k mem i p ip (Try k mem i p (mark b w m i p))"
proof (cases "visited_slot b i p")
  case (Inl e)
  then show ?thesis using fault by simp
next
  case (Inr wm)
  obtain w m where wm: "wm = (w, m)" by (cases wm)
  show ?thesis
  proof (cases "bt_visited b ! w AND m = 0")
    case False
    then show ?thesis using pruned[of w m] Inr wm by simp
  next
    case True
    show ?thesis
    proof (cases "prog_inst (bt_prog b) i")
      case (Inl e)
      then show ?thesis using bad_inst[of w m e] Inr wm True by simp
    next
      case ip: (Inr ip)
      have "Visit (Suc k) mem i p b = after_Try k mem i p ip (Try k mem i p (mark b w m i p))"
        using Inr wm True ip by (simp add: Let_def mark_def after_Try_def)
      then show ?thesis using explore[of w m ip] Inr wm True ip by simp
    qed
  qed
qed

lemma Try_Suc_cases:
  obtains (bad_inst) e where "prog_inst (bt_prog b) i = Inl e" "Try (Suc k) mem i p b = Some (Inl e)"
  | (no) "Try (Suc k) mem i p b = Some (Inr (False, b))"
  | (fatal) "Try (Suc k) mem i p b = Some (Inl LogFatal)"
  | (call) ip q where "prog_inst (bt_prog b) i = Inr ip"
      "Try (Suc k) mem i p b = Visit k mem (out ip) q b"
  | (capture) ip q b1 where "prog_inst (bt_prog b) i = Inr ip"
      "0 \<le> cap ip" "cap ip < kCapSize"
      "cap_get b (cap ip) = Inr q" "cap_set b (cap ip) p = Inr b1"
      "Try (Suc k) mem i p b = restore_cap ip q (Visit k mem (out ip) p b1)"
  | (capture_fault) ip where "prog_inst (bt_prog b) i = Inr ip"
      "0 \<le> cap ip" "cap ip < kCapSize" "\<not> cap ip < int (length (bt_cap b))"
      "Try (Suc k) mem i p b = Some (Inl CapOutOfBounds)"
  | (match) "Try (Suc k) mem i p b = Try_match b p"
proof (cases "prog_inst (bt_prog b) i")
  case (Inl e)
  then show ?thesis using bad_inst by simp
next
  case ip: (Inr ip)
  show ?thesis
  proof (cases "opcode ip")
    case kInstAltMatch
    then show ?thesis using no ip by simp
  next
    case kInstByteRange
    then have "Try (Suc k) mem i p b = Some (Inr (False, b)) \<or>
               Try (Suc k) mem i p b = Visit k mem (out ip) (p + 1) b"
      using ip by (simp add: Let_def)
    then show ?thesis using no call[OF ip] by blast
  next
    case kInstCapture
    show ?thesis
    proof (cases "0 \<le> cap ip \<and> cap ip < kCapSize")
      case False
      then have "Try (Suc k) mem i p b = Visit k mem (out ip) p b"
        using ip kInstCapture by (auto simp: Let_def)
      then show ?thesis using call[OF ip] by blast
    next
      case True
      show ?thesis
      proof (cases "cap ip < int (length (bt_cap b))")
        case False
        then have "Try (Suc k) mem i p b = Some (Inl CapOutOfBounds)"
          using ip kInstCapture True by (simp add: Let_def cap_get_def)
        then show ?thesis using capture_fault[OF ip] True False by blast
      next
        case lt: True
        then have g: "cap_get b (cap ip) = Inr (bt_cap b ! nat (cap ip))"
          and s: "cap_set b (cap ip) p = Inr (b\<lparr>bt_cap := (bt_cap b)[nat (cap ip) := p]\<rparr>)"
          using True by (simp_all add: cap_get_def cap_set_def)
        have "Try (Suc k) mem i p b =
                restore_cap ip (bt_cap b ! nat (cap ip))
                  (Visit k mem (out ip) p (b\<lparr>bt_cap := (bt_cap b)[nat (cap ip) := p]\<rparr>))"
          using ip kInstCapture True g s by (simp add: Let_def restore_cap_def)
        then show ?thesis using capture[OF ip _ _ g s] True by blast
      qed
    qed
  next
    case kInstEmptyWidth
    then have "Try (Suc k) mem i p b = Some (Inr (False, b)) \<or>
               Try (Suc k) mem i p b = Visit k mem (out ip) p b"
      using ip by (simp add: Let_def)
    then show ?thesis using no call[OF ip] by blast
  next
    case kInstMatch
    then have "Try (Suc k) mem i p b = Some (Inr (False, b)) \<or>
               Try (Suc k) mem i p b = Try_match b p"
      using ip by (simp add: Let_def Try_match_def)
    then show ?thesis using no match by blast
  next
    case kInstNop
    then have "Try (Suc k) mem i p b = Visit k mem (out ip) p b"
      using ip by (simp add: Let_def)
    then show ?thesis using call[OF ip] by blast
  next
    case kInstFail
    then show ?thesis using no ip by simp
  next
    case (kInstOther x)
    then show ?thesis using fatal ip by simp
  qed
qed

declare Visit.simps(2) [simp del] Try.simps(2) [simp del]

lemma vbits_subset: "vbits vs \<subseteq> {..<length vs} \<times> {..<32}"
  by (auto simp: vbits_def)

lemma vbits_finite: "finite (vbits vs)"
  by (rule finite_subset[OF vbits_subset]) simp

lemma vbits_card: "card (vbits vs) \<le> 32 * length vs"
proof -
  have "card (vbits vs) \<le> card ({..<length vs} \<times> {..<32::nat})"
    by (rule card_mono[OF _ vbits_subset]) simp
  then show ?thesis by (simp add: mult.commute)
qed

lemma mask_test: "j < 32 \<Longrightarrow> (x AND push_bit j 1 = 0) \<longleftrightarrow> \<not> bit (x :: 32 word) j"
  by (simp add: push_bit_of_1 and_exp_eq_0_iff_not_bit)

lemma vbits_set_bit:
  assumes "w < length vs" "j < 32"
  shows "vbits (vs[w := vs ! w OR push_bit j 1]) = insert (w, j) (vbits vs)"
  using assms by (auto simp: vbits_def nth_list_update bit_or_iff bit_exp_iff push_bit_of_1 split: if_splits)

lemma unvisited_set_bit:
  assumes "w < length vs" "j < 32" "\<not> bit (vs ! w) j"
  shows "Suc (unvisited (vs[w := vs ! w OR push_bit j 1])) = unvisited vs"
proof -
  have notin: "(w, j) \<notin> vbits vs" using assms by (simp add: vbits_def)
  have c: "card (vbits (vs[w := vs ! w OR push_bit j 1])) = Suc (card (vbits vs))"
    using vbits_set_bit[OF assms(1,2)] notin vbits_finite by simp
  have "card (vbits (vs[w := vs ! w OR push_bit j 1])) \<le> 32 * length (vs[w := vs ! w OR push_bit j 1])"
    by (rule vbits_card)
  then show ?thesis using c by (simp add: unvisited_def)
qed

lemma unvisited_mono:
  assumes "length vs' = length vs" "vbits vs \<subseteq> vbits vs'"
  shows "unvisited vs' \<le> unvisited vs"
proof -
  have "card (vbits vs) \<le> card (vbits vs')"
    by (rule card_mono[OF vbits_finite assms(2)])
  then show ?thesis using assms(1) by (simp add: unvisited_def)
qed

lemma unvisited_replicate: "unvisited (replicate n 0) = 32 * n"
proof -
  have "vbits (replicate n 0) = {}" by (auto simp: vbits_def)
  then show ?thesis by (simp add: unvisited_def)
qed

lemma and31: "0 \<le> (n::int) AND 31 \<and> n AND 31 < 32"
proof -
  have "n AND 31 \<le> 31" by (rule AND_upper2) simp
  then show ?thesis by simp
qed

lemma visited_slot_Inr:
  assumes "visited_slot b i p = Inr (w, m)"
  shows "w < length (bt_visited b) \<and> (\<exists>j<32. m = push_bit j 1)"
proof -
  from assms obtain n where n: "visited_index (bt_text b) i p = Inr n"
    and lt: "n sdiv 32 < int (length (bt_visited b))" and ge: "0 \<le> n sdiv 32"
    and w: "w = nat (n sdiv 32)" and m: "m = push_bit (nat (n AND 31)) 1"
    by (auto simp: visited_slot_def split: if_splits sum.splits)
  have "nat (n AND 31) < 32" using and31[of n] by linarith
  with lt ge w m show ?thesis by auto
qed

lemma after_Try_Inr:
  assumes "after_Try k mem i p ip res = Some (Inr (r, b'))"
  obtains rt b2 where "res = Some (Inr (rt, b2))"
    "b' = b2 \<or> (\<exists>r3. Visit k mem (i + 1) p b2 = Some (Inr (r3, b')))"
  using assms
  by (auto simp: after_Try_def split: option.splits sum.splits bool.splits if_splits)

lemma restore_cap_Inr:
  assumes "restore_cap ip q res = Some (Inr (r, b'))"
  obtains b2 where "res = Some (Inr (r, b2))" "cap_set b2 (cap ip) q = Inr b'"
  using assms
  by (auto simp: restore_cap_def split: option.splits sum.splits)

lemma Try_match_Inr:
  assumes "Try_match b p = Some (Inr (r, b'))"
  obtains b1 where "cap_set b 1 p = Inr b1"
    "b' = b1 \<or> store_submatch [0 .. bt_nsubmatch b1 - 1] b1 = Inr b'"
  using assms
  by (auto simp: Try_match_def split: sum.splits if_splits)

lemma Visit_Try_rel:
  assumes refl: "\<And>b. R b b"
    and trans: "\<And>a b c. R a b \<Longrightarrow> R b c \<Longrightarrow> R a c"
    and step_bit: "\<And>b i p w m. visited_slot b i p = Inr (w, m) \<Longrightarrow> bt_visited b ! w AND m = 0 \<Longrightarrow>
        R b (mark b w m i p)"
    and step_cap: "\<And>b i p b'. cap_set b i p = Inr b' \<Longrightarrow> R b b'"
    and step_store: "\<And>b js b'. store_submatch js b = Inr b' \<Longrightarrow> R b b'"
  shows "(Visit k mem i p b = Some (Inr (r, b')) \<longrightarrow> R b b') \<and>
         (Try k mem i p b = Some (Inr (r, b')) \<longrightarrow> R b b')"
proof (induction k arbitrary: i p b r b')
  case 0
  show ?case by simp
next
  case (Suc k)
  have IHV: "\<And>i p b r b'. Visit k mem i p b = Some (Inr (r, b')) \<Longrightarrow> R b b'"
    and IHT: "\<And>i p b r b'. Try k mem i p b = Some (Inr (r, b')) \<Longrightarrow> R b b'"
    using Suc.IH by blast+
  have V: "R b b'" if h: "Visit (Suc k) mem i p b = Some (Inr (r, b'))"
  proof (cases rule: Visit_Suc_cases[of b i p k mem])
    case (fault e)
    with h show ?thesis by simp
  next
    case (pruned w m)
    with h show ?thesis by (simp add: refl)
  next
    case (bad_inst w m e)
    with h show ?thesis by simp
  next
    case (explore w m ip)
    from h explore(4)
    have "after_Try k mem i p ip (Try k mem i p (mark b w m i p)) = Some (Inr (r, b'))" by simp
    then obtain rt b2 where t: "Try k mem i p (mark b w m i p) = Some (Inr (rt, b2))"
      and rest: "b' = b2 \<or> (\<exists>r3. Visit k mem (i + 1) p b2 = Some (Inr (r3, b')))"
      by (rule after_Try_Inr)
    have "R b (mark b w m i p)" using explore(1,2) by (rule step_bit)
    then have "R b b2" using IHT[OF t] by (rule trans)
    with rest show ?thesis using IHV trans by blast
  qed
  have T: "R b b'" if h: "Try (Suc k) mem i p b = Some (Inr (r, b'))"
  proof (cases rule: Try_Suc_cases[of b i k mem p])
    case (bad_inst e)
    with h show ?thesis by simp
  next
    case no
    with h show ?thesis by (simp add: refl)
  next
    case fatal
    with h show ?thesis by simp
  next
    case (call ip q)
    with h show ?thesis using IHV by simp
  next
    case (capture ip q b1)
    from h capture(6) have "restore_cap ip q (Visit k mem (out ip) p b1) = Some (Inr (r, b'))"
      by simp
    then obtain b2 where v: "Visit k mem (out ip) p b1 = Some (Inr (r, b2))"
      and c: "cap_set b2 (cap ip) q = Inr b'"
      by (rule restore_cap_Inr)
    from step_cap[OF capture(5)] IHV[OF v] step_cap[OF c] show ?thesis using trans by blast
  next
    case (capture_fault ip)
    with h show ?thesis by simp
  next
    case match
    with h have "Try_match b p = Some (Inr (r, b'))" by simp
    then obtain b1 where c: "cap_set b 1 p = Inr b1"
      and rest: "b' = b1 \<or> store_submatch [0 .. bt_nsubmatch b1 - 1] b1 = Inr b'"
      by (rule Try_match_Inr)
    from step_cap[OF c] rest show ?thesis using step_store trans by blast
  qed
  from V T show ?case by blast
qed

lemma frame_refl: "frame b b"
  by (simp add: frame_def)

lemma frame_trans: "frame a b \<Longrightarrow> frame b c \<Longrightarrow> frame a c"
  by (auto simp: frame_def)

lemma frame_mark:
  assumes "visited_slot b i p = Inr (w, m)"
  shows "frame b (mark b w m i p)"
proof -
  from visited_slot_Inr[OF assms] obtain j where w: "w < length (bt_visited b)"
    and j: "j < 32" and m: "m = push_bit j 1" by blast
  show ?thesis using vbits_set_bit[OF w j] m by (auto simp: frame_def mark_def)
qed

lemma frame_cap_set: "cap_set b i p = Inr b' \<Longrightarrow> frame b b'"
  by (auto simp: cap_set_def frame_def split: if_splits)

lemma frame_store_submatch: "store_submatch js b = Inr b' \<Longrightarrow> frame b b'"
proof (induction js arbitrary: b)
  case Nil
  then show ?case by (simp add: frame_refl)
next
  case (Cons j js)
  from Cons.prems obtain lo hi where
    "store_submatch js (b\<lparr>bt_submatch := (bt_submatch b)
        [nat j := \<lparr>sp_data = lo, sp_size = size_t_cast (int hi - int lo)\<rparr>]\<rparr>) = Inr b'"
    by (auto split: sum.splits if_splits)
  from Cons.IH[OF this] show ?case by (simp add: frame_def)
qed

lemma Visit_frame: "Visit k mem i p b = Some (Inr (r, b')) \<Longrightarrow> frame b b'"
  using Visit_Try_rel[of frame k mem i p b r b']
    frame_refl frame_trans frame_mark frame_cap_set frame_store_submatch
  by blast

lemma Try_frame: "Try k mem i p b = Some (Inr (r, b')) \<Longrightarrow> frame b b'"
  using Visit_Try_rel[of frame k mem i p b r b']
    frame_refl frame_trans frame_mark frame_cap_set frame_store_submatch
  by blast

lemma after_Try_None:
  assumes "after_Try k mem i p ip res = None"
  obtains "res = None"
  | rt b2 where "res = Some (Inr (rt, b2))" "Visit k mem (i + 1) p b2 = None"
  using assms
  by (auto simp: after_Try_def split: option.splits sum.splits bool.splits if_splits)

lemma restore_cap_None: "restore_cap ip q res = None \<Longrightarrow> res = None"
  by (auto simp: restore_cap_def split: option.splits sum.splits)

lemma Try_match_not_None: "Try_match b p \<noteq> None"
  by (auto simp: Try_match_def split: sum.splits)

lemma unvisited_mark:
  assumes "visited_slot b i p = Inr (w, m)" "bt_visited b ! w AND m = 0"
  shows "Suc (unvisited (bt_visited (mark b w m i p))) = unvisited (bt_visited b)"
proof -
  from visited_slot_Inr[OF assms(1)] obtain j where w: "w < length (bt_visited b)"
    and j: "j < 32" and m: "m = push_bit j 1" by blast
  from assms(2)[unfolded m] mask_test[OF j] have "\<not> bit (bt_visited b ! w) j" by blast
  from unvisited_set_bit[OF w j this] m show ?thesis by (simp add: mark_def)
qed

lemma frame_unvisited: "frame b b' \<Longrightarrow> unvisited (bt_visited b') \<le> unvisited (bt_visited b)"
  by (rule unvisited_mono) (simp_all add: frame_def)

lemma cap_set_visited: "cap_set b i p = Inr b' \<Longrightarrow> bt_visited b' = bt_visited b"
  by (auto simp: cap_set_def split: if_splits)

lemma Visit_Try_terminate:
  "(2 * unvisited (bt_visited b) + 1 \<le> k \<longrightarrow> Visit k mem i p b \<noteq> None) \<and>
   (2 * unvisited (bt_visited b) + 2 \<le> k \<longrightarrow> Try k mem i p b \<noteq> None)"
proof (induction k arbitrary: i p b)
  case 0
  show ?case by simp
next
  case (Suc k)
  have IHV: "\<And>i p b. 2 * unvisited (bt_visited b) + 1 \<le> k \<Longrightarrow> Visit k mem i p b \<noteq> None"
    and IHT: "\<And>i p b. 2 * unvisited (bt_visited b) + 2 \<le> k \<Longrightarrow> Try k mem i p b \<noteq> None"
    using Suc.IH by blast+
  have V: "Visit (Suc k) mem i p b \<noteq> None" if le: "2 * unvisited (bt_visited b) + 1 \<le> Suc k"
  proof (cases rule: Visit_Suc_cases[of b i p k mem])
    case (fault e)
    then show ?thesis by simp
  next
    case (pruned w m)
    then show ?thesis by simp
  next
    case (bad_inst w m e)
    then show ?thesis by simp
  next
    case (explore w m ip)
    let ?b1 = "mark b w m i p"
    have u: "Suc (unvisited (bt_visited ?b1)) = unvisited (bt_visited b)"
      using explore(1,2) by (rule unvisited_mark)
    with le have le1: "2 * unvisited (bt_visited ?b1) + 2 \<le> k" by simp
    show ?thesis
    proof
      assume "Visit (Suc k) mem i p b = None"
      with explore(4) have "after_Try k mem i p ip (Try k mem i p ?b1) = None" by simp
      then show False
      proof (cases rule: after_Try_None)
        case 1
        with IHT[OF le1, of i p] show False by simp
      next
        case (2 rt b2)
        from Try_frame[OF 2(1)] have "unvisited (bt_visited b2) \<le> unvisited (bt_visited ?b1)"
          by (rule frame_unvisited)
        with le1 have "2 * unvisited (bt_visited b2) + 1 \<le> k" by simp
        from IHV[OF this, of "i + 1" p] 2(2) show False by simp
      qed
    qed
  qed
  have T: "Try (Suc k) mem i p b \<noteq> None" if le: "2 * unvisited (bt_visited b) + 2 \<le> Suc k"
  proof -
    from le have le1: "2 * unvisited (bt_visited b) + 1 \<le> k" by simp
    show ?thesis
    proof (cases rule: Try_Suc_cases[of b i k mem p])
      case (bad_inst e)
      then show ?thesis by simp
    next
      case no
      then show ?thesis by simp
    next
      case fatal
      then show ?thesis by simp
    next
      case (call ip q)
      with IHV[OF le1, of "out ip" q] show ?thesis by simp
    next
      case (capture ip q b1)
      from cap_set_visited[OF capture(5)] le1
      have "2 * unvisited (bt_visited b1) + 1 \<le> k" by simp
      from IHV[OF this, of "out ip" p] capture(6) show ?thesis using restore_cap_None by fastforce
    next
      case (capture_fault ip)
      then show ?thesis by simp
    next
      case match
      then show ?thesis by (simp add: Try_match_not_None)
    qed
  qed
  from V T show ?case by blast
qed

lemma visited_slot_frame: "frame b b' \<Longrightarrow> visited_slot b' i p = visited_slot b i p"
  by (auto simp: visited_slot_def frame_def split: sum.splits)

lemma word_nz_bit: "(x :: 32 word) \<noteq> 0 \<longleftrightarrow> (\<exists>n<32. bit x n)"
proof
  assume "x \<noteq> 0"
  with bit_eq_iff[of x 0] obtain n where "bit x n" by auto
  moreover from this have "n < 32" using bit_imp_le_length[of x n] by simp
  ultimately show "\<exists>n<32. bit x n" by blast
next
  assume "\<exists>n<32. bit x n"
  then obtain n where "bit x n" by blast
  then show "x \<noteq> 0" using bit_eq_iff[of x 0] by auto
qed

lemma vbits_and_mono:
  assumes "length vs' = length vs" "vbits vs \<subseteq> vbits vs'" "w < length vs" "vs ! w AND m \<noteq> 0"
  shows "vs' ! w AND m \<noteq> 0"
proof -
  from assms(4) obtain n where n32: "n < 32" and n: "bit (vs ! w AND m) n"
    unfolding word_nz_bit by blast
  from n have bx: "bit (vs ! w) n" and bm: "bit m n" by (simp_all add: bit_and_iff)
  from bx n32 assms(3) have "(w, n) \<in> vbits vs" by (simp add: vbits_def)
  with assms(2) have "(w, n) \<in> vbits vs'" by blast
  then have "bit (vs' ! w) n" by (simp add: vbits_def)
  with bm have "bit (vs' ! w AND m) n" by (simp add: bit_and_iff)
  with n32 show ?thesis unfolding word_nz_bit by blast
qed

lemma slot_set_Inr:
  "slot_set b i p \<longleftrightarrow> (\<exists>w m. visited_slot b i p = Inr (w, m) \<and> bt_visited b ! w AND m \<noteq> 0)"
proof (cases "visited_slot b i p")
  case (Inl e)
  then show ?thesis by (simp add: slot_set_def)
next
  case (Inr wm)
  then show ?thesis by (cases wm) (simp add: slot_set_def)
qed

lemma slot_set_frame:
  assumes "frame b b'" "slot_set b i p"
  shows "slot_set b' i p"
proof -
  from assms(2) obtain w m where s: "visited_slot b i p = Inr (w, m)"
    and nz: "bt_visited b ! w AND m \<noteq> 0"
    unfolding slot_set_Inr by blast
  have s': "visited_slot b' i p = Inr (w, m)" using s visited_slot_frame[OF assms(1)] by simp
  from visited_slot_Inr[OF s] have w: "w < length (bt_visited b)" by blast
  from assms(1) have l: "length (bt_visited b') = length (bt_visited b)"
    and sub: "vbits (bt_visited b) \<subseteq> vbits (bt_visited b')" by (simp_all add: frame_def)
  have "bt_visited b' ! w AND m \<noteq> 0"
    using l sub w nz by (rule vbits_and_mono)
  with s' show ?thesis unfolding slot_set_Inr by blast
qed

lemma mask_bit: "j < 32 \<Longrightarrow> bit (push_bit j (1 :: 32 word)) j"
  by (simp add: bit_exp_iff)

lemma slot_set_mark:
  assumes "visited_slot b i p = Inr (w, m)"
  shows "slot_set (mark b w m i p) i p"
proof -
  from visited_slot_Inr[OF assms] obtain j where w: "w < length (bt_visited b)"
    and j: "j < 32" and m: "m = push_bit j 1" by blast
  have s': "visited_slot (mark b w m i p) i p = Inr (w, m)"
    using assms visited_slot_frame[OF frame_mark[OF assms]] by simp
  have "bit m j" unfolding m using j by (rule mask_bit)
  then have "bit ((bt_visited b ! w OR m) AND m) j"
    by (simp only: bit_and_iff bit_or_iff simp_thms)
  with j have nz: "(bt_visited b ! w OR m) AND m \<noteq> 0" unfolding word_nz_bit by blast
  have "bt_visited (mark b w m i p) ! w = bt_visited b ! w OR m"
    using w by (simp add: mark_def)
  with nz s' show ?thesis unfolding slot_set_Inr by simp
qed

lemma explored_ok_mark:
  assumes ok: "explored_ok b" and s: "visited_slot b i p = Inr (w, m)"
    and z: "bt_visited b ! w AND m = 0"
  shows "explored_ok (mark b w m i p)"
proof -
  have new: "(i, p) \<notin> set (bt_explored b)"
  proof
    assume "(i, p) \<in> set (bt_explored b)"
    with ok have "slot_set b i p" by (auto simp: explored_ok_def list_all_iff)
    with s z show False unfolding slot_set_Inr by simp
  qed
  have old: "slot_set (mark b w m i p) i' p'" if "(i', p') \<in> set (bt_explored b)" for i' p'
  proof -
    from that ok have "slot_set b i' p'" by (auto simp: explored_ok_def list_all_iff)
    with frame_mark[OF s] show ?thesis by (rule slot_set_frame)
  qed
  have e: "bt_explored (mark b w m i p) = bt_explored b @ [(i, p)]" by (simp add: mark_def)
  have d: "distinct (bt_explored b @ [(i, p)])"
    using ok new by (simp add: explored_ok_def)
  have a: "list_all (\<lambda>(i', p'). slot_set (mark b w m i p) i' p') (bt_explored b @ [(i, p)])"
    using old slot_set_mark[OF s] by (auto simp: list_all_iff)
  show ?thesis unfolding explored_ok_def e using d a by simp
qed

lemma explored_ok_cong:
  assumes "bt_text b' = bt_text b" "bt_visited b' = bt_visited b" "bt_explored b' = bt_explored b"
  shows "explored_ok b' = explored_ok b"
proof -
  have "slot_set b' i p = slot_set b i p" for i p
    unfolding slot_set_def visited_slot_def assms by (rule refl)
  then show ?thesis using assms by (simp add: explored_ok_def)
qed

lemma store_submatch_same:
  "store_submatch js b = Inr b' \<Longrightarrow>
   bt_text b' = bt_text b \<and> bt_visited b' = bt_visited b \<and> bt_explored b' = bt_explored b \<and>
   bt_cap b' = bt_cap b"
proof (induction js arbitrary: b)
  case Nil
  then show ?case by simp
next
  case (Cons j js)
  from Cons.prems obtain lo hi where
    "store_submatch js (b\<lparr>bt_submatch := (bt_submatch b)
        [nat j := \<lparr>sp_data = lo, sp_size = size_t_cast (int hi - int lo)\<rparr>]\<rparr>) = Inr b'"
    by (auto split: sum.splits if_splits)
  from Cons.IH[OF this] show ?case by simp
qed

lemma cap_set_same:
  "cap_set b i p = Inr b' \<Longrightarrow>
   bt_text b' = bt_text b \<and> bt_visited b' = bt_visited b \<and> bt_explored b' = bt_explored b"
  by (auto simp: cap_set_def split: if_splits)

lemma explored_ok_cap_set:
  assumes "cap_set b i p = Inr b'" "explored_ok b"
  shows "explored_ok b'"
proof -
  from cap_set_same[OF assms(1)] have "explored_ok b' = explored_ok b"
    by (intro explored_ok_cong) blast+
  with assms(2) show ?thesis by blast
qed

lemma explored_ok_store_submatch:
  assumes "store_submatch js b = Inr b'" "explored_ok b"
  shows "explored_ok b'"
proof -
  from store_submatch_same[OF assms(1)] have "explored_ok b' = explored_ok b"
    by (intro explored_ok_cong) blast+
  with assms(2) show ?thesis by blast
qed

lemma Visit_Try_explored_ok:
  "(Visit k mem i p b = Some (Inr (r, b')) \<longrightarrow> explored_ok b \<longrightarrow> explored_ok b') \<and>
   (Try k mem i p b = Some (Inr (r, b')) \<longrightarrow> explored_ok b \<longrightarrow> explored_ok b')"
proof (rule Visit_Try_rel[of "\<lambda>b b'. explored_ok b \<longrightarrow> explored_ok b'"])
  show "explored_ok b \<longrightarrow> explored_ok b" for b by (rule impI)
  show "explored_ok a \<longrightarrow> explored_ok c"
    if "explored_ok a \<longrightarrow> explored_ok b" "explored_ok b \<longrightarrow> explored_ok c" for a b c
    using that by blast
  show "explored_ok b \<longrightarrow> explored_ok (mark b w m i p)"
    if "visited_slot b i p = Inr (w, m)" "bt_visited b ! w AND m = 0" for b i p w m
    using that explored_ok_mark by blast
  show "explored_ok b \<longrightarrow> explored_ok b'" if "cap_set b i p = Inr b'" for b i p b'
    using that explored_ok_cap_set by blast
  show "explored_ok b \<longrightarrow> explored_ok b'" if "store_submatch js b = Inr b'" for b js b'
    using that explored_ok_store_submatch by blast
qed

lemma visited_slot_fault: "visited_slot b i p = Inl e \<Longrightarrow> e \<noteq> CapOutOfBounds"
  by (auto simp: visited_slot_def visited_index_def chk_int_def split: if_splits sum.splits)

lemma prog_inst_fault: "prog_inst P i = Inl e \<Longrightarrow> e = InstOutOfBounds"
  by (auto simp: prog_inst_def split: if_splits)

lemma after_Try_Inl:
  assumes "after_Try k mem i p ip res = Some (Inl e)"
  obtains "res = Some (Inl e)"
  | rt b2 where "res = Some (Inr (rt, b2))" "Visit k mem (i + 1) p b2 = Some (Inl e)"
  using assms
  by (auto simp: after_Try_def split: option.splits sum.splits bool.splits if_splits)

lemma restore_cap_Inl:
  assumes "restore_cap ip q res = Some (Inl e)"
  obtains "res = Some (Inl e)"
  | ret b2 where "res = Some (Inr (ret, b2))" "cap_set b2 (cap ip) q = Inl e"
  using assms
  by (auto simp: restore_cap_def split: option.splits sum.splits)

lemma cap_ok_frame: "frame b b' \<Longrightarrow> cap_ok b \<Longrightarrow> cap_ok b'"
  by (simp add: cap_ok_def frame_def)

lemma cap_set_ok: "cap_ok b \<Longrightarrow> 0 \<le> i \<Longrightarrow> i < kCapSize \<Longrightarrow> \<exists>b'. cap_set b i p = Inr b'"
  by (simp add: cap_ok_def cap_set_def)

lemma cap_get_ok: "cap_ok b \<Longrightarrow> 0 \<le> i \<Longrightarrow> i < kCapSize \<Longrightarrow> \<exists>q. cap_get b i = Inr q"
  by (simp add: cap_ok_def cap_get_def)

lemma store_submatch_no_cap_fault:
  "int (length (bt_cap b)) = kCapSize \<Longrightarrow> \<forall>j\<in>set js. 0 \<le> j \<and> 2 * j + 1 < kCapSize \<Longrightarrow>
   store_submatch js b \<noteq> Inl CapOutOfBounds"
proof (induction js arbitrary: b)
  case Nil
  then show ?case by simp
next
  case (Cons j js)
  from Cons.prems have j: "0 \<le> j" "2 * j + 1 < kCapSize" by simp_all
  with Cons.prems(1) have g1: "cap_get b (2 * j) = Inr (bt_cap b ! nat (2 * j))"
    and g2: "cap_get b (2 * j + 1) = Inr (bt_cap b ! nat (2 * j + 1))"
    by (simp_all add: cap_get_def)
  show ?case
  proof (cases "0 \<le> j \<and> j < int (length (bt_submatch b))")
    case False
    with g1 g2 show ?thesis by auto
  next
    case True
    let ?b1 = "b\<lparr>bt_submatch := (bt_submatch b)
        [nat j := \<lparr>sp_data = bt_cap b ! nat (2 * j),
                    sp_size = size_t_cast (int (bt_cap b ! nat (2 * j + 1)) - int (bt_cap b ! nat (2 * j)))\<rparr>]\<rparr>"
    have "store_submatch js ?b1 \<noteq> Inl CapOutOfBounds"
      using Cons.prems by (intro Cons.IH) simp_all
    with g1 g2 True show ?thesis by simp
  qed
qed

lemma Try_match_no_cap_fault:
  assumes "cap_ok b"
  shows "Try_match b p \<noteq> Some (Inl CapOutOfBounds)"
proof -
  from assms have l: "int (length (bt_cap b)) = kCapSize" and n: "2 * bt_nsubmatch b < kCapSize"
    by (simp_all add: cap_ok_def)
  let ?b1 = "b\<lparr>bt_cap := (bt_cap b)[nat 1 := p]\<rparr>"
  have c: "cap_set b 1 p = Inr ?b1" using l by (simp add: cap_set_def kCapSize_def)
  have "store_submatch [0 .. bt_nsubmatch ?b1 - 1] ?b1 \<noteq> Inl CapOutOfBounds"
    using l n by (intro store_submatch_no_cap_fault) auto
  then show ?thesis
    unfolding Try_match_def c by (auto split: sum.splits)
qed

lemma Visit_Try_no_cap_fault:
  "cap_ok b \<longrightarrow> Visit k mem i p b \<noteq> Some (Inl CapOutOfBounds) \<and>
                 Try k mem i p b \<noteq> Some (Inl CapOutOfBounds)"
proof (induction k arbitrary: i p b)
  case 0
  show ?case by simp
next
  case (Suc k)
  have IHV: "\<And>i p b. cap_ok b \<Longrightarrow> Visit k mem i p b \<noteq> Some (Inl CapOutOfBounds)"
    and IHT: "\<And>i p b. cap_ok b \<Longrightarrow> Try k mem i p b \<noteq> Some (Inl CapOutOfBounds)"
    using Suc.IH by blast+
  have V: "Visit (Suc k) mem i p b \<noteq> Some (Inl CapOutOfBounds)" if ok: "cap_ok b"
  proof (cases rule: Visit_Suc_cases[of b i p k mem])
    case (fault e)
    with visited_slot_fault[OF fault(1)] show ?thesis by simp
  next
    case (pruned w m)
    then show ?thesis by simp
  next
    case (bad_inst w m e)
    with prog_inst_fault[OF bad_inst(3)] show ?thesis by simp
  next
    case (explore w m ip)
    have ok1: "cap_ok (mark b w m i p)"
      using frame_mark[OF explore(1)] ok by (rule cap_ok_frame)
    show ?thesis
    proof
      assume "Visit (Suc k) mem i p b = Some (Inl CapOutOfBounds)"
      with explore(4)
      have "after_Try k mem i p ip (Try k mem i p (mark b w m i p)) = Some (Inl CapOutOfBounds)"
        by simp
      then show False
      proof (cases rule: after_Try_Inl)
        case 1
        with IHT[OF ok1, of i p] show False by simp
      next
        case (2 rt b2)
        from Try_frame[OF 2(1)] ok1 have "cap_ok b2" by (rule cap_ok_frame)
        from IHV[OF this, of "i + 1" p] 2(2) show False by simp
      qed
    qed
  qed
  have T: "Try (Suc k) mem i p b \<noteq> Some (Inl CapOutOfBounds)" if ok: "cap_ok b"
  proof (cases rule: Try_Suc_cases[of b i k mem p])
    case (bad_inst e)
    with prog_inst_fault[OF bad_inst(1)] show ?thesis by simp
  next
    case no
    then show ?thesis by simp
  next
    case fatal
    then show ?thesis by simp
  next
    case (call ip q)
    with IHV[OF ok, of "out ip" q] show ?thesis by simp
  next
    case (capture ip q b1)
    from frame_cap_set[OF capture(5)] ok have ok1: "cap_ok b1" by (rule cap_ok_frame)
    show ?thesis
    proof
      assume "Try (Suc k) mem i p b = Some (Inl CapOutOfBounds)"
      with capture(6)
      have "restore_cap ip q (Visit k mem (out ip) p b1) = Some (Inl CapOutOfBounds)" by simp
      then show False
      proof (cases rule: restore_cap_Inl)
        case 1
        with IHV[OF ok1, of "out ip" p] show False by simp
      next
        case (2 ret b2)
        from Visit_frame[OF 2(1)] ok1 have "cap_ok b2" by (rule cap_ok_frame)
        from cap_set_ok[OF this capture(2,3), of q] 2(2) show False by auto
      qed
    qed
  next
    case (capture_fault ip)
    with ok show ?thesis by (simp add: cap_ok_def)
  next
    case match
    with Try_match_no_cap_fault[OF ok] show ?thesis by simp
  qed
  from V T show ?case by blast
qed

section \<open>The loop of \<open>Search\<close>\<close>

declare Search_loop.simps [simp del]

lemma Search_loop_cases:
  obtains (finished) "\<not> p \<le> sp_data text + sp_size text"
      "Search_loop fuel mem text p b = Some (Inr (False, b))"
  | (cap_fault) e where "p \<le> sp_data text + sp_size text" "cap_set b 0 p = Inl e"
      "Search_loop fuel mem text p b = Some (Inl e)"
  | (round) b1 where "p \<le> sp_data text + sp_size text" "cap_set b 0 p = Inr b1"
      "Search_loop fuel mem text p b =
         Search_next fuel mem text p (Visit fuel mem (start (bt_prog b1)) p b1)"
proof (cases "p \<le> sp_data text + sp_size text")
  case False
  then have "Search_loop fuel mem text p b = Some (Inr (False, b))"
    by (subst Search_loop.simps) simp
  then show ?thesis using finished False by blast
next
  case True
  show ?thesis
  proof (cases "cap_set b 0 p")
    case (Inl e)
    have "Search_loop fuel mem text p b = Some (Inl e)"
      using True Inl by (subst Search_loop.simps) simp
    then show ?thesis using cap_fault True Inl by blast
  next
    case (Inr b1)
    have "Search_loop fuel mem text p b =
            Search_next fuel mem text p (Visit fuel mem (start (bt_prog b1)) p b1)"
      using True Inr by (subst Search_loop.simps) (simp add: Search_next_def)
    then show ?thesis using round True Inr by blast
  qed
qed

lemma Search_next_cases:
  obtains (none) "res = None" "Search_next fuel mem text p res = None"
  | (fault) e where "res = Some (Inl e)" "Search_next fuel mem text p res = Some (Inl e)"
  | (stop) r b2 where "res = Some (Inr (r, b2))" "r \<or> p = NULL"
      "Search_next fuel mem text p res = Some (Inr (r, b2))"
  | (continue) b2 where "res = Some (Inr (False, b2))" "p \<noteq> NULL"
      "Search_next fuel mem text p res = Search_loop fuel mem text (p + 1) b2"
proof (cases res)
  case None
  then show ?thesis using none by (simp add: Search_next_def)
next
  case (Some x)
  show ?thesis
  proof (cases x)
    case (Inl e)
    then show ?thesis using fault Some by (simp add: Search_next_def)
  next
    case (Inr rb)
    obtain r b2 where rb: "rb = (r, b2)" by (cases rb)
    show ?thesis
    proof (cases "r \<or> p = NULL")
      case True
      have "Search_next fuel mem text p res = Some (Inr (r, b2))"
        using Some Inr rb True by (cases r) (simp_all add: Search_next_def)
      then show ?thesis using stop[of r b2] Some Inr rb True by blast
    next
      case False
      have "Search_next fuel mem text p res = Search_loop fuel mem text (p + 1) b2"
        using Some Inr rb False by (simp add: Search_next_def)
      then show ?thesis using continue[of b2] Some Inr rb False by simp
    qed
  qed
qed

lemma Search_loop_rel:
  assumes R_refl: "\<And>b. R b b"
    and R_trans: "\<And>a b c. R a b \<Longrightarrow> R b c \<Longrightarrow> R a c"
    and step_cap: "\<And>b i p b'. cap_set b i p = Inr b' \<Longrightarrow> R b b'"
    and step_Visit: "\<And>fuel mem b i p r b'. Visit fuel mem i p b = Some (Inr (r, b')) \<Longrightarrow> R b b'"
  shows "Search_loop fuel mem tx p b = Some (Inr (r, b')) \<Longrightarrow> R b b'"
proof (induction fuel mem tx p b rule: Search_loop.induct)
  case (1 fuel mem tx p b)
  show ?case
  proof (cases rule: Search_loop_cases[of p tx fuel mem b])
    case finished
    with "1.prems" show ?thesis by (simp add: R_refl)
  next
    case (cap_fault e)
    with "1.prems" show ?thesis by simp
  next
    case (round b1)
    let ?res = "Visit fuel mem (start (bt_prog b1)) p b1"
    from "1.prems" round(3) have sn: "Search_next fuel mem tx p ?res = Some (Inr (r, b'))"
      by simp
    have c: "R b b1" using round(2) by (rule step_cap)
    show ?thesis
    proof (cases rule: Search_next_cases[of ?res fuel mem tx p])
      case none
      with sn show ?thesis by simp
    next
      case (fault e)
      with sn show ?thesis by simp
    next
      case (stop r2 b2)
      with sn have "b' = b2" by simp
      with step_Visit[OF stop(1)] c show ?thesis using R_trans by blast
    next
      case (continue b2)
      with sn have "Search_loop fuel mem tx (p + 1) b2 = Some (Inr (r, b'))" by simp
      from "1.IH"[OF round(1,2) continue(1) refl refl refl continue(2) this]
      have "R b2 b'" .
      with step_Visit[OF continue(1)] c show ?thesis using R_trans by blast
    qed
  qed
qed

lemma Search_loop_frame: "Search_loop fuel mem tx p b = Some (Inr (r, b')) \<Longrightarrow> frame b b'"
  using Search_loop_rel[of frame fuel mem tx p b r b']
    frame_refl frame_trans frame_cap_set Visit_frame
  by blast

lemma Visit_explored_ok:
  "Visit k mem i p b = Some (Inr (r, b')) \<Longrightarrow> explored_ok b \<Longrightarrow> explored_ok b'"
  using Visit_Try_explored_ok[of k mem i p b r b'] by blast

lemma Search_loop_explored_ok:
  assumes "Search_loop fuel mem tx p b = Some (Inr (r, b'))" "explored_ok b"
  shows "explored_ok b'"
proof -
  have "explored_ok b \<longrightarrow> explored_ok b'"
  proof (rule Search_loop_rel[of "\<lambda>b b'. explored_ok b \<longrightarrow> explored_ok b'", OF _ _ _ _ assms(1)])
    show "explored_ok b \<longrightarrow> explored_ok b" for b by (rule impI)
    show "explored_ok a \<longrightarrow> explored_ok c"
      if "explored_ok a \<longrightarrow> explored_ok b" "explored_ok b \<longrightarrow> explored_ok c" for a b c
      using that by blast
    show "explored_ok b \<longrightarrow> explored_ok b'" if "cap_set b i p = Inr b'" for b i p b'
      using that explored_ok_cap_set by blast
    show "explored_ok b \<longrightarrow> explored_ok b'"
      if "Visit fuel mem i p b = Some (Inr (r, b'))" for fuel mem b i p r b'
      using that Visit_explored_ok by blast
  qed
  with assms(2) show ?thesis by blast
qed

lemma Search_loop_terminate:
  "2 * unvisited (bt_visited b) + 1 \<le> fuel \<Longrightarrow> Search_loop fuel mem tx p b \<noteq> None"
proof (induction fuel mem tx p b rule: Search_loop.induct)
  case (1 fuel mem tx p b)
  show ?case
  proof (cases rule: Search_loop_cases[of p tx fuel mem b])
    case finished
    then show ?thesis by simp
  next
    case (cap_fault e)
    then show ?thesis by simp
  next
    case (round b1)
    let ?res = "Visit fuel mem (start (bt_prog b1)) p b1"
    from cap_set_visited[OF round(2)] "1.prems"
    have le1: "2 * unvisited (bt_visited b1) + 1 \<le> fuel" by simp
    have vn: "?res \<noteq> None"
      using Visit_Try_terminate[of b1 fuel mem "start (bt_prog b1)" p] le1 by blast
    show ?thesis
    proof (cases rule: Search_next_cases[of ?res fuel mem tx p])
      case none
      with vn show ?thesis by simp
    next
      case (fault e)
      with round(3) show ?thesis by simp
    next
      case (stop r2 b2)
      with round(3) show ?thesis by simp
    next
      case (continue b2)
      from Visit_frame[OF continue(1)] have "unvisited (bt_visited b2) \<le> unvisited (bt_visited b1)"
        by (rule frame_unvisited)
      with le1 have "2 * unvisited (bt_visited b2) + 1 \<le> fuel" by simp
      from "1.IH"[OF round(1,2) continue(1) refl refl refl continue(2) this]
      show ?thesis using round(3) continue(3) by simp
    qed
  qed
qed

lemma Search_loop_no_cap_fault:
  "cap_ok b \<Longrightarrow> Search_loop fuel mem tx p b \<noteq> Some (Inl CapOutOfBounds)"
proof (induction fuel mem tx p b rule: Search_loop.induct)
  case (1 fuel mem tx p b)
  show ?case
  proof (cases rule: Search_loop_cases[of p tx fuel mem b])
    case finished
    then show ?thesis by simp
  next
    case (cap_fault e)
    with "1.prems" show ?thesis by (simp add: cap_ok_def cap_set_def kCapSize_def)
  next
    case (round b1)
    let ?res = "Visit fuel mem (start (bt_prog b1)) p b1"
    from frame_cap_set[OF round(2)] "1.prems" have ok1: "cap_ok b1" by (rule cap_ok_frame)
    have vn: "?res \<noteq> Some (Inl CapOutOfBounds)"
      using Visit_Try_no_cap_fault[of b1 fuel mem "start (bt_prog b1)" p] ok1 by blast
    show ?thesis
    proof (cases rule: Search_next_cases[of ?res fuel mem tx p])
      case none
      with round(3) show ?thesis by simp
    next
      case (fault e)
      with round(3) vn show ?thesis by simp
    next
      case (stop r2 b2)
      with round(3) show ?thesis by simp
    next
      case (continue b2)
      from Visit_frame[OF continue(1)] ok1 have "cap_ok b2" by (rule cap_ok_frame)
      from "1.IH"[OF round(1,2) continue(1) refl refl refl continue(2) this]
      show ?thesis using round(3) continue(3) by simp
    qed
  qed
qed

lemma Search_init_fields:
  "bt_prog (Search_init b tx c) = bt_prog b"
  "bt_text (Search_init b tx c) = tx"
  "bt_context (Search_init b tx c) = (if sp_data c = NULL then tx else c)"
  "bt_explored (Search_init b tx c) = []"
  by (simp_all add: Search_init_def Let_def)

lemma Search_cases:
  obtains (rejected) "Search_rejects (bt_prog b0) tx context"
      "Search fuel mem b0 tx context anchored longest submatch nsubmatch =
         Some (Inr (False, Search_init b0 tx context))"
  | (fault) e where "\<not> Search_rejects (bt_prog b0) tx context"
      "Search fuel mem b0 tx context anchored longest submatch nsubmatch = Some (Inl e)"
      "e = SignedOverflow \<or> e = CheckFailed \<or> e = SubmatchOutOfBounds \<or> e = BadAlloc"
  | (run) b7 nv where "\<not> Search_rejects (bt_prog b0) tx context"
      "nvisited (bt_prog b0) tx = Inr nv" "0 \<le> nv"
      "bt_visited b7 = replicate (nat nv) 0" "bt_explored b7 = []" "cap_ok b7"
      "bt_prog b7 = bt_prog b0" "bt_text b7 = tx"
      "bt_longest b7 = (longest \<or> anchor_end (bt_prog b0))"
      "2 * nsubmatch < kCapSize"
      "Search fuel mem b0 tx context anchored longest submatch nsubmatch =
         Search_start fuel mem tx b7"
proof (cases "Search_rejects (bt_prog b0) tx context")
  case True
  then have "Search fuel mem b0 tx context anchored longest submatch nsubmatch =
         Some (Inr (False, Search_init b0 tx context))"
    by (auto simp: Search_def Search_rejects_def Search_init_fields Let_def)
  with True show ?thesis by (rule rejected)
next
  case False
  let ?b2 = "Search_init b0 tx context"
  let ?b3 = "?b2\<lparr>bt_anchored := anchored \<or> anchor_start (bt_prog ?b2),
                    bt_longest := longest \<or> anchor_end (bt_prog ?b2),
                    bt_endmatch := anchor_end (bt_prog ?b2),
                    bt_submatch := submatch,
                    bt_nsubmatch := nsubmatch\<rparr>"
  let ?b4 = "?b3\<lparr>bt_cap := replicate (nat kCapSize) NULL\<rparr>"
  let ?b5 = "if nsubmatch < 1 then ?b4\<lparr>bt_submatch := [StringPiece0], bt_nsubmatch := 1\<rparr> else ?b4"
  let ?b6 = "?b5\<lparr>bt_submatch := (bt_submatch ?b5)[0 := StringPiece0]\<rparr>"
  let ?S = "Search fuel mem b0 tx context anchored longest submatch nsubmatch"
  from False have nr: "\<not> (anchor_start (bt_prog ?b2) \<and> BeginPtr tx > BeginPtr (bt_context ?b2))"
    "\<not> (anchor_end (bt_prog ?b2) \<and> EndPtr tx < EndPtr (bt_context ?b2))"
    by (auto simp: Search_rejects_def Search_init_fields Let_def)
  have S0: "?S = (case chk_int (2 * bt_nsubmatch ?b3) of Inl e \<Rightarrow> Some (Inl e) | Inr n2 \<Rightarrow>
         if \<not> n2 < kCapSize then Some (Inl CheckFailed)
         else if bt_submatch ?b5 = [] then Some (Inl SubmatchOutOfBounds)
         else (case nvisited (bt_prog ?b6) tx of Inl e \<Rightarrow> Some (Inl e) | Inr nv \<Rightarrow>
              if nv < 0 then Some (Inl BadAlloc)
              else Search_start fuel mem tx (?b6\<lparr>bt_visited := replicate (nat nv) 0\<rparr>)))"
    unfolding Search_def Let_def Search_start_def by (simp only: nr if_False)
  have S1: "?S = (case chk_int (2 * nsubmatch) of Inl e \<Rightarrow> Some (Inl e) | Inr n2 \<Rightarrow>
         if \<not> n2 < kCapSize then Some (Inl CheckFailed)
         else if bt_submatch ?b5 = [] then Some (Inl SubmatchOutOfBounds)
         else (case nvisited (bt_prog ?b6) tx of Inl e \<Rightarrow> Some (Inl e) | Inr nv \<Rightarrow>
              if nv < 0 then Some (Inl BadAlloc)
              else Search_start fuel mem tx (?b6\<lparr>bt_visited := replicate (nat nv) 0\<rparr>)))"
    unfolding S0 by simp
  show ?thesis
  proof (cases "chk_int (2 * nsubmatch)")
    case (Inl e)
    then have "e = SignedOverflow" by (auto simp: chk_int_def split: if_splits)
    with Inl S1 show ?thesis using fault[OF False] by simp
  next
    case (Inr n2)
    then have n2: "n2 = 2 * nsubmatch" by (auto simp: chk_int_def split: if_splits)
    show ?thesis
    proof (cases "n2 < kCapSize")
      case False
      with Inr S1 show ?thesis using fault[OF \<open>\<not> Search_rejects (bt_prog b0) tx context\<close>] by simp
    next
      case lt: True
      show ?thesis
      proof (cases "bt_submatch ?b5 = []")
        case True
        with Inr lt S1 have "?S = Some (Inl SubmatchOutOfBounds)" by simp
        then show ?thesis using fault[OF False] by simp
      next
        case ne: False
        show ?thesis
        proof (cases "nvisited (bt_prog ?b6) tx")
          case (Inl e)
          then have "e = SignedOverflow"
            by (auto simp: nvisited_def chk_int_def split: if_splits sum.splits)
          moreover from Inl Inr lt ne S1 have "?S = Some (Inl e)" by simp
          ultimately show ?thesis using fault[OF False] by simp
        next
          case nv: (Inr nv)
          show ?thesis
          proof (cases "nv < 0")
            case True
            with nv Inr lt ne S1 have "?S = Some (Inl BadAlloc)" by simp
            then show ?thesis using fault[OF False] by simp
          next
            case nn: False
            let ?b7 = "?b6\<lparr>bt_visited := replicate (nat nv) 0\<rparr>"
            from nn nv Inr lt ne S1 have S: "?S = Search_start fuel mem tx ?b7" by simp
            have p: "bt_prog ?b6 = bt_prog b0" by (simp add: Search_init_fields)
            have c: "cap_ok ?b7"
              using lt n2 by (simp add: cap_ok_def kCapSize_def)
            show ?thesis
            proof (rule run[OF False _ _ _ _ c _ _ _ _ S])
              show "nvisited (bt_prog b0) tx = Inr nv" using nv p by simp
              show "0 \<le> nv" using nn by simp
              show "bt_visited ?b7 = replicate (nat nv) 0" by simp
              show "bt_explored ?b7 = []" by (simp add: Search_init_fields)
              show "bt_prog ?b7 = bt_prog b0" by (simp add: Search_init_fields)
              show "bt_text ?b7 = tx" by (simp add: Search_init_fields)
              show "bt_longest ?b7 = (longest \<or> anchor_end (bt_prog b0))"
                by (simp add: Search_init_fields)
              show "2 * nsubmatch < kCapSize" using lt n2 by simp
            qed
          qed
        qed
      qed
    qed
  qed
qed

lemma Search_start_cases:
  obtains (anchored) b8 where "bt_anchored b7" "cap_set b7 0 (sp_data tx) = Inr b8"
      "Search_start fuel mem tx b7 = Visit fuel mem (start (bt_prog b8)) (sp_data tx) b8"
  | (cap_fault) e where "cap_set b7 0 (sp_data tx) = Inl e"
      "Search_start fuel mem tx b7 = Some (Inl e)"
  | (unanchored) "\<not> bt_anchored b7"
      "Search_start fuel mem tx b7 = Search_loop fuel mem tx (sp_data tx) b7"
proof (cases "bt_anchored b7")
  case False
  then show ?thesis using unanchored by (simp add: Search_start_def)
next
  case True
  show ?thesis
  proof (cases "cap_set b7 0 (sp_data tx)")
    case (Inl e)
    with True show ?thesis using cap_fault by (simp add: Search_start_def)
  next
    case (Inr b8)
    with True show ?thesis using anchored by (simp add: Search_start_def)
  qed
qed

lemma Search_start_frame:
  assumes "Search_start fuel mem tx b7 = Some (Inr (r, b'))"
  shows "frame b7 b'"
proof (cases rule: Search_start_cases[of b7 tx fuel mem])
  case (anchored b8)
  with assms have "Visit fuel mem (start (bt_prog b8)) (sp_data tx) b8 = Some (Inr (r, b'))"
    by simp
  from frame_cap_set[OF anchored(2)] Visit_frame[OF this] show ?thesis by (rule frame_trans)
next
  case (cap_fault e)
  with assms show ?thesis by simp
next
  case unanchored
  with assms show ?thesis using Search_loop_frame by simp
qed

lemma Search_start_explored_ok:
  assumes "Search_start fuel mem tx b7 = Some (Inr (r, b'))" "explored_ok b7"
  shows "explored_ok b'"
proof (cases rule: Search_start_cases[of b7 tx fuel mem])
  case (anchored b8)
  with assms have v: "Visit fuel mem (start (bt_prog b8)) (sp_data tx) b8 = Some (Inr (r, b'))"
    by simp
  from explored_ok_cap_set[OF anchored(2) assms(2)] have "explored_ok b8" .
  with v show ?thesis by (rule Visit_explored_ok)
next
  case (cap_fault e)
  with assms show ?thesis by simp
next
  case unanchored
  with assms have "Search_loop fuel mem tx (sp_data tx) b7 = Some (Inr (r, b'))" by simp
  then show ?thesis using assms(2) by (rule Search_loop_explored_ok)
qed

lemma Search_start_terminate:
  assumes "2 * unvisited (bt_visited b7) + 1 \<le> fuel"
  shows "Search_start fuel mem tx b7 \<noteq> None"
proof (cases rule: Search_start_cases[of b7 tx fuel mem])
  case (anchored b8)
  from cap_set_visited[OF anchored(2)] assms
  have "2 * unvisited (bt_visited b8) + 1 \<le> fuel" by simp
  with Visit_Try_terminate[of b8 fuel mem "start (bt_prog b8)" "sp_data tx"] anchored(3)
  show ?thesis by simp
next
  case (cap_fault e)
  then show ?thesis by simp
next
  case unanchored
  with Search_loop_terminate[OF assms, of mem tx "sp_data tx"] show ?thesis by simp
qed

lemma Search_start_no_cap_fault:
  assumes "cap_ok b7"
  shows "Search_start fuel mem tx b7 \<noteq> Some (Inl CapOutOfBounds)"
proof (cases rule: Search_start_cases[of b7 tx fuel mem])
  case (anchored b8)
  from frame_cap_set[OF anchored(2)] assms have "cap_ok b8" by (rule cap_ok_frame)
  with Visit_Try_no_cap_fault[of b8 fuel mem "start (bt_prog b8)" "sp_data tx"] anchored(3)
  show ?thesis by simp
next
  case (cap_fault e)
  with assms show ?thesis by (simp add: cap_ok_def cap_set_def kCapSize_def)
next
  case unanchored
  with Search_loop_no_cap_fault[OF assms, of fuel mem tx "sp_data tx"] show ?thesis by simp
qed

lemma Visit_sets_slot:
  assumes "Visit k mem i p b = Some (Inr (r, b'))"
  shows "slot_set b' i p"
proof (cases k)
  case 0
  with assms show ?thesis by simp
next
  case (Suc k')
  show ?thesis
  proof (cases rule: Visit_Suc_cases[of b i p k' mem])
    case (fault e)
    with assms Suc show ?thesis by simp
  next
    case (pruned w m)
    with assms Suc have "b' = b" by simp
    with pruned(1,2) show ?thesis unfolding slot_set_Inr by simp
  next
    case (bad_inst w m e)
    with assms Suc show ?thesis by simp
  next
    case (explore w m ip)
    from assms Suc explore(4)
    have "after_Try k' mem i p ip (Try k' mem i p (mark b w m i p)) = Some (Inr (r, b'))" by simp
    then obtain rt b2 where t: "Try k' mem i p (mark b w m i p) = Some (Inr (rt, b2))"
      and rest: "b' = b2 \<or> (\<exists>r3. Visit k' mem (i + 1) p b2 = Some (Inr (r3, b')))"
      by (rule after_Try_Inr)
    from rest Visit_frame have "frame b2 b'" using frame_refl by blast
    with Try_frame[OF t] have "frame (mark b w m i p) b'" by (rule frame_trans)
    then show ?thesis using slot_set_mark[OF explore(1)] by (rule slot_set_frame)
  qed
qed

section \<open>The size of the bitmap\<close>

lemma int_cast_id: "INT_MIN \<le> x \<Longrightarrow> x \<le> INT_MAX \<Longrightarrow> int_cast x = x"
  by (simp add: int_cast_def INT_MIN_def INT_MAX_def)

lemma chk_int_Inr: "chk_int x = Inr y \<Longrightarrow> y = x \<and> INT_MIN \<le> x \<and> x \<le> INT_MAX"
  by (simp add: chk_int_def split: if_splits)

lemma sdiv_nonneg: "0 \<le> (x::int) \<Longrightarrow> x sdiv 32 = x div 32"
proof (cases "x = 0")
  case True
  then show ?thesis by simp
next
  case False
  assume "0 \<le> x"
  with False have "sgn x = 1" by simp
  then show ?thesis using \<open>0 \<le> x\<close> by (simp add: signed_divide_int_def)
qed

lemma ceiling_div32: "\<lceil>real_of_int x / 32\<rceil> = (x + 31) div 32"
proof -
  have "\<lceil>real_of_int x / real_of_int 32\<rceil> = - (- x div 32)"
    by (rule ceiling_divide_eq_div)
  moreover have "- (- x div 32) = (x + 31) div 32" by arith
  ultimately show ?thesis by simp
qed

lemma nvisited_Inr:
  assumes "nvisited prog tx = Inr nv"
  shows "nv = (prog_size prog * int_cast (int (sp_size tx) + 1) + 31) sdiv 32"
    and "prog_size prog * int_cast (int (sp_size tx) + 1) + 31 \<le> INT_MAX"
proof -
  let ?n = "prog_size prog * int_cast (int (sp_size tx) + 1)"
  from assms obtain n where n: "chk_int ?n = Inr n"
    by (cases "chk_int ?n") (simp_all add: nvisited_def)
  then have n_eq: "n = ?n" using chk_int_Inr by blast
  from assms n obtain n1 where n1: "chk_int (n + 31) = Inr n1"
    by (cases "chk_int (n + 31)") (simp_all add: nvisited_def)
  then have n1_eq: "n1 = n + 31" and le: "n + 31 \<le> INT_MAX" using chk_int_Inr by blast+
  from assms n n1 have "nv = n1 sdiv 32" by (simp add: nvisited_def)
  with n1_eq n_eq show "nv = (?n + 31) sdiv 32" by simp
  from le n_eq show "?n + 31 \<le> INT_MAX" by simp
qed

lemma nvisited_ceiling:
  assumes "nvisited prog tx = Inr nv" "int (sp_size tx) + 1 \<le> INT_MAX"
  shows "nv = \<lceil>real_of_int (prog_size prog * (int (sp_size tx) + 1)) / 32\<rceil>"
proof -
  have c: "int_cast (int (sp_size tx) + 1) = int (sp_size tx) + 1"
    using assms(2) by (intro int_cast_id) (simp_all add: INT_MIN_def)
  have "0 \<le> prog_size prog * (int (sp_size tx) + 1)" by (simp add: prog_size_def)
  then have "0 \<le> prog_size prog * (int (sp_size tx) + 1) + 31" by simp
  then have "(prog_size prog * (int (sp_size tx) + 1) + 31) sdiv 32 =
             (prog_size prog * (int (sp_size tx) + 1) + 31) div 32"
    by (rule sdiv_nonneg)
  with nvisited_Inr(1)[OF assms(1)] c show ?thesis
    by (simp only: ceiling_div32)
qed

section \<open>\<open>Search\<close> as a whole\<close>

lemma Search_check_nsubmatch:
  assumes "\<not> Search_rejects (bt_prog b0) tx ctx" "\<not> 2 * nsubmatch < kCapSize"
  shows "Search fuel mem b0 tx ctx anchored longest submatch nsubmatch =
           Some (Inl (if 2 * nsubmatch \<le> INT_MAX then CheckFailed else SignedOverflow))"
proof -
  let ?b2 = "Search_init b0 tx ctx"
  from assms(1) have nr: "\<not> (anchor_start (bt_prog ?b2) \<and> BeginPtr tx > BeginPtr (bt_context ?b2))"
    "\<not> (anchor_end (bt_prog ?b2) \<and> EndPtr tx < EndPtr (bt_context ?b2))"
    by (auto simp: Search_rejects_def Search_init_fields Let_def)
  show ?thesis
  proof (cases "2 * nsubmatch \<le> INT_MAX")
    case True
    with assms(2) have c: "chk_int (2 * nsubmatch) = Inr (2 * nsubmatch)"
      by (simp add: chk_int_def INT_MIN_def kCapSize_def)
    show ?thesis
      unfolding Search_def Let_def using nr True assms(2) by (simp add: c)
  next
    case False
    then have c: "chk_int (2 * nsubmatch) = Inl SignedOverflow" by (simp add: chk_int_def)
    show ?thesis
      unfolding Search_def Let_def using nr False by (simp add: c)
  qed
qed

lemma Search_no_cap_fault:
  "Search fuel mem b0 tx ctx anchored longest submatch nsubmatch \<noteq> Some (Inl CapOutOfBounds)"
proof (cases rule: Search_cases[of b0 tx ctx fuel mem anchored longest submatch nsubmatch])
  case rejected
  then show ?thesis by simp
next
  case (fault e)
  then show ?thesis by auto
next
  case (run b7 nv)
  with Search_start_no_cap_fault[of b7 fuel mem tx] show ?thesis by simp
qed

lemma Search_result:
  assumes "Search fuel mem b0 tx ctx anchored longest submatch nsubmatch = Some (Inr (r, b'))"
  shows "distinct (bt_explored b')"
    and "\<not> Search_rejects (bt_prog b0) tx ctx \<Longrightarrow>
         nvisited (bt_prog b0) tx = Inr (int (length (bt_visited b'))) \<and> cap_ok b'"
proof -
  have "distinct (bt_explored b') \<and>
        (\<not> Search_rejects (bt_prog b0) tx ctx \<longrightarrow>
         nvisited (bt_prog b0) tx = Inr (int (length (bt_visited b'))) \<and> cap_ok b')"
  proof (cases rule: Search_cases[of b0 tx ctx fuel mem anchored longest submatch nsubmatch])
    case rejected
    with assms have "b' = Search_init b0 tx ctx" by simp
    with rejected(1) show ?thesis by (simp add: Search_init_fields)
  next
    case (fault e)
    with assms show ?thesis by simp
  next
    case (run b7 nv)
    from assms run(11) have s: "Search_start fuel mem tx b7 = Some (Inr (r, b'))" by simp
    have "explored_ok b7" using run(5) by (simp add: explored_ok_def)
    with s have "explored_ok b'" by (rule Search_start_explored_ok)
    then have d: "distinct (bt_explored b')" by (simp add: explored_ok_def)
    from Search_start_frame[OF s] have f: "frame b7 b'" .
    then have "length (bt_visited b') = nat nv" using run(4) by (simp add: frame_def)
    with run(2,3) have n: "nvisited (bt_prog b0) tx = Inr (int (length (bt_visited b')))" by simp
    from f run(6) have "cap_ok b'" by (rule cap_ok_frame)
    with d n show ?thesis by simp
  qed
  then show "distinct (bt_explored b')"
    and "\<not> Search_rejects (bt_prog b0) tx ctx \<Longrightarrow>
         nvisited (bt_prog b0) tx = Inr (int (length (bt_visited b'))) \<and> cap_ok b'"
    by blast+
qed

lemma Search_terminates:
  assumes "Search_fuel (bt_prog b0) tx \<le> fuel"
  shows "Search fuel mem b0 tx ctx anchored longest submatch nsubmatch \<noteq> None"
proof (cases rule: Search_cases[of b0 tx ctx fuel mem anchored longest submatch nsubmatch])
  case rejected
  then show ?thesis by simp
next
  case (fault e)
  then show ?thesis by simp
next
  case (run b7 nv)
  from assms run(2) have "64 * nat nv + 1 \<le> fuel" by (simp add: Search_fuel_def)
  then have "2 * unvisited (bt_visited b7) + 1 \<le> fuel"
    using run(4) by (simp add: unvisited_replicate)
  from Search_start_terminate[OF this, of mem tx] run(11) show ?thesis by simp
qed

lemma outcome_Inr:
  assumes "outcome res = Some (Inr r)"
  obtains b where "res = Some (Inr (r, b))"
proof (cases res)
  case None
  with assms show ?thesis by (simp add: outcome_def)
next
  case (Some x)
  show ?thesis
  proof (cases x)
    case (Inl e)
    with Some assms show ?thesis by (simp add: outcome_def)
  next
    case (Inr rb)
    with Some assms that show ?thesis by (cases rb) (simp add: outcome_def)
  qed
qed

section \<open>More fuel, same result\<close>

text \<open>
  A call that returns within some depth returns the same with any greater depth: the
  fuel decides only whether the model gets to the result.
\<close>

lemma after_Try_mono:
  assumes V: "\<And>i p b. Visit k mem i p b \<noteq> None \<Longrightarrow> Visit k' mem i p b = Visit k mem i p b"
    and a: "after_Try k mem i p ip res = Some r"
  shows "after_Try k' mem i p ip res = Some r"
proof (cases res)
  case None
  with a show ?thesis by (simp add: after_Try_def)
next
  case (Some x)
  show ?thesis
  proof (cases x)
    case (Inl e)
    with Some a show ?thesis by (auto simp: after_Try_def)
  next
    case (Inr rb)
    obtain ret b2 where rb: "rb = (ret, b2)" by (cases rb)
    show ?thesis
    proof (cases "Visit k mem (i + 1) p b2")
      case None
      with a Some Inr rb show ?thesis
        by (cases ret) (auto simp: after_Try_def split: if_splits)
    next
      case (Some y)
      then have "Visit k' mem (i + 1) p b2 = Visit k mem (i + 1) p b2" by (intro V) simp
      with a \<open>res = Some x\<close> Inr rb show ?thesis
        by (cases ret) (auto simp: after_Try_def split: if_splits)
    qed
  qed
qed

lemma restore_cap_Some:
  assumes "restore_cap ip q res = Some r"
  shows "res \<noteq> None"
  using assms unfolding restore_cap_def by (auto split: option.splits)

lemma Visit_Try_fuel_mono:
  "(Visit k mem i p b = Some r \<longrightarrow> Visit (k + j) mem i p b = Some r) \<and>
   (Try k mem i p b = Some r \<longrightarrow> Try (k + j) mem i p b = Some r)"
proof (induction k arbitrary: i p b r)
  case 0
  show ?case by simp
next
  case (Suc k)
  have V: "Visit (k + j) mem i p b = Visit k mem i p b" if "Visit k mem i p b \<noteq> None" for i p b
    using that Suc by fastforce
  have T: "Try (k + j) mem i p b = Some r" if "Try k mem i p b = Some r" for i p b r
    using that Suc by blast
  have A: "Visit (Suc (k + j)) mem i p b = Some r" if v: "Visit (Suc k) mem i p b = Some r"
  proof (cases rule: Visit_Suc_cases[of b i p k mem])
    case (fault e)
    with v show ?thesis by (simp add: Visit.simps(2))
  next
    case (pruned w m)
    with v show ?thesis by (simp add: Visit.simps(2))
  next
    case (bad_inst w m e)
    with v show ?thesis by (simp add: Visit.simps(2))
  next
    case (explore w m ip)
    from v explore(4) have a: "after_Try k mem i p ip (Try k mem i p (mark b w m i p)) = Some r"
      by simp
    then obtain x where x: "Try k mem i p (mark b w m i p) = Some x"
      by (auto simp: after_Try_def split: option.splits)
    from T[OF x] have x': "Try (k + j) mem i p (mark b w m i p) = Some x" .
    from a x have "after_Try k mem i p ip (Some x) = Some r" by simp
    then have "after_Try (k + j) mem i p ip (Some x) = Some r"
      using V by (rule after_Try_mono[rotated])
    moreover have "Visit (Suc (k + j)) mem i p b =
        after_Try (k + j) mem i p ip (Try (k + j) mem i p (mark b w m i p))"
      using explore(1,2,3) by (simp add: Visit.simps(2) Let_def mark_def after_Try_def)
    ultimately show ?thesis using x' by simp
  qed
  have B: "Try (Suc (k + j)) mem i p b = Some r" if t: "Try (Suc k) mem i p b = Some r"
  proof (cases "prog_inst (bt_prog b) i")
    case (Inl e)
    with t show ?thesis by (simp add: Try.simps(2))
  next
    case ip: (Inr ip)
    show ?thesis
    proof (cases "opcode ip")
      case kInstAltMatch
      with t ip show ?thesis by (simp add: Try.simps(2))
    next
      case kInstByteRange
      with t ip show ?thesis by (auto simp: Try.simps(2) Let_def V split: if_splits)
    next
      case kInstCapture
      show ?thesis
      proof (cases "0 \<le> cap ip \<and> cap ip < kCapSize")
        case False
        with t ip kInstCapture show ?thesis by (auto simp: Try.simps(2) Let_def V)
      next
        case True
        show ?thesis
        proof (cases "cap_get b (cap ip)")
          case (Inl e)
          with t ip kInstCapture True show ?thesis by (simp add: Try.simps(2) Let_def)
        next
          case q: (Inr q)
          show ?thesis
          proof (cases "cap_set b (cap ip) p")
            case (Inl e)
            with t ip kInstCapture True q show ?thesis by (simp add: Try.simps(2) Let_def)
          next
            case b1: (Inr b1)
            have e: "Try (Suc n) mem i p b = restore_cap ip q (Visit n mem (out ip) p b1)" for n
              using ip kInstCapture True q b1 by (simp add: Try.simps(2) Let_def restore_cap_def)
            from t have "Visit k mem (out ip) p b1 \<noteq> None"
              unfolding e by (rule restore_cap_Some)
            then have "Visit (k + j) mem (out ip) p b1 = Visit k mem (out ip) p b1" by (rule V)
            with t show ?thesis unfolding e by simp
          qed
        qed
      qed
    next
      case kInstEmptyWidth
      with t ip show ?thesis by (auto simp: Try.simps(2) Let_def V split: if_splits)
    next
      case kInstNop
      with t ip show ?thesis by (auto simp: Try.simps(2) Let_def V)
    next
      case kInstMatch
      with t ip show ?thesis by (simp add: Try.simps(2) Let_def)
    next
      case kInstFail
      with t ip show ?thesis by (simp add: Try.simps(2))
    next
      case (kInstOther x)
      with t ip show ?thesis by (simp add: Try.simps(2))
    qed
  qed
  from A B show ?case by simp
qed

lemma Visit_fuel_mono:
  "Visit k mem i p b \<noteq> None \<Longrightarrow> Visit (k + j) mem i p b = Visit k mem i p b"
  using Visit_Try_fuel_mono[of k mem i p b _ j] by fastforce

lemma Search_loop_fuel_mono:
  "Search_loop fuel mem tx p b = Some r \<Longrightarrow> Search_loop (fuel + j) mem tx p b = Some r"
proof (induction fuel mem tx p b rule: Search_loop.induct)
  case (1 fuel mem tx p b)
  show ?case
  proof (cases rule: Search_loop_cases[of p tx fuel mem b])
    case finished
    then have "Search_loop (fuel + j) mem tx p b = Some (Inr (False, b))"
      by (subst Search_loop.simps) simp
    with finished "1.prems" show ?thesis by simp
  next
    case (cap_fault e)
    then have "Search_loop (fuel + j) mem tx p b = Some (Inl e)"
      by (subst Search_loop.simps) simp
    with cap_fault "1.prems" show ?thesis by simp
  next
    case (round b1)
    let ?res = "Visit fuel mem (start (bt_prog b1)) p b1"
    have big: "Search_loop (fuel + j) mem tx p b =
        Search_next (fuel + j) mem tx p (Visit (fuel + j) mem (start (bt_prog b1)) p b1)"
      using round(1,2) by (subst Search_loop.simps) (simp add: Search_next_def)
    from "1.prems" round(3) have sn: "Search_next fuel mem tx p ?res = Some r" by simp
    show ?thesis
    proof (cases rule: Search_next_cases[of ?res fuel mem tx p])
      case none
      with sn show ?thesis by simp
    next
      case (fault e)
      then have "Visit (fuel + j) mem (start (bt_prog b1)) p b1 = Some (Inl e)"
        by (simp add: Visit_fuel_mono)
      with fault sn show ?thesis unfolding big by (auto simp: Search_next_def)
    next
      case (stop r2 b2)
      then have "Visit (fuel + j) mem (start (bt_prog b1)) p b1 = Some (Inr (r2, b2))"
        by (simp add: Visit_fuel_mono)
      with stop sn show ?thesis unfolding big by (cases r2) (auto simp: Search_next_def)
    next
      case (continue b2)
      then have v: "Visit (fuel + j) mem (start (bt_prog b1)) p b1 = Some (Inr (False, b2))"
        by (simp add: Visit_fuel_mono)
      from sn continue(3) have "Search_loop fuel mem tx (p + 1) b2 = Some r" by simp
      from "1.IH"[OF round(1,2) continue(1) refl refl refl continue(2) this]
      show ?thesis unfolding big v using continue(2) by (simp add: Search_next_def)
    qed
  qed
qed

lemma Search_fuel_mono:
  assumes "Search fuel mem b0 tx ctx anchored longest submatch nsubmatch = Some r"
  shows "Search (fuel + j) mem b0 tx ctx anchored longest submatch nsubmatch = Some r"
proof -
  have V: "Visit (fuel + j) mem i p b = Some r" if "Visit fuel mem i p b = Some r" for i p b
    using that Visit_fuel_mono[of fuel mem i p b j] by simp
  show ?thesis
    using assms unfolding Search_def Let_def
    by (auto split: sum.splits if_splits intro: V Search_loop_fuel_mono)
qed

section \<open>Pairs and their bits\<close>

lemma and31_mod: "(n::int) AND 31 = n mod 32"
proof -
  have "n AND mask 5 = n mod 2 ^ 5" by (simp only: take_bit_eq_mask [symmetric] take_bit_eq_mod)
  then show ?thesis by (simp add: mask_eq_exp_minus_1)
qed

lemma pair_number_inj:
  fixes i i' off off' T :: int
  assumes "0 \<le> off" "off < T" "0 \<le> off'" "off' < T" "i * T + off = i' * T + off'"
  shows "i = i' \<and> off = off'"
proof -
  have T: "0 < T" using assms(1,2) by simp
  have "(i * T + off) div T = i" using assms(1,2) T by (simp add: div_pos_pos_trivial)
  moreover have "(i' * T + off') div T = i'" using assms(3,4) T by (simp add: div_pos_pos_trivial)
  ultimately have "i = i'" using assms(5) by simp
  with assms(5) show ?thesis by simp
qed

lemma mask_inj:
  assumes "j < 32" "j' < 32" "push_bit j (1 :: 32 word) = push_bit j' 1"
  shows "j = j'"
proof -
  have "bit (push_bit j (1 :: 32 word)) j" using assms(1) by (simp add: bit_exp_iff)
  with assms(3) have "bit (push_bit j' (1 :: 32 word)) j" by simp
  then show ?thesis by (simp add: bit_exp_iff)
qed

lemma div32_lt:
  fixes n N :: int
  assumes "0 \<le> n" "n < N"
  shows "n div 32 < (N + 31) div 32"
  using assms by arith

lemma divmod32_inj:
  fixes n n' :: int
  assumes "n div 32 = n' div 32" "n mod 32 = n' mod 32"
  shows "n = n'"
  using assms by arith

lemma valid_pair_slot:
  assumes nv: "nvisited (bt_prog b) (bt_text b) = Inr (int (length (bt_visited b)))"
    and rng: "int (sp_size (bt_text b)) + 1 \<le> INT_MAX"
    and vp: "valid_pair (bt_prog b) (bt_text b) i p"
  shows "visited_slot b i p =
           Inr (nat (pair_bit (bt_text b) i p div 32),
                push_bit (nat (pair_bit (bt_text b) i p mod 32)) 1)"
    and "0 \<le> pair_bit (bt_text b) i p"
proof -
  let ?T = "int (sp_size (bt_text b)) + 1"
  let ?off = "int p - int (sp_data (bt_text b))"
  let ?P = "prog_size (bt_prog b)"
  let ?n = "pair_bit (bt_text b) i p"
  from vp have i: "0 \<le> i" "i < ?P" and off: "0 \<le> ?off" "?off < ?T"
    and ple: "p \<le> sp_data (bt_text b) + sp_size (bt_text b)"
    by (auto simp: valid_pair_def)
  have cT: "int_cast ?T = ?T" using rng by (intro int_cast_id) (simp_all add: INT_MIN_def)
  have coff: "int_cast ?off = ?off"
    using off rng by (intro int_cast_id) (simp_all add: INT_MIN_def)
  have T0: "0 < ?T" by simp
  have iT: "0 \<le> i * ?T" using i(1) by simp
  have "(i + 1) * ?T \<le> ?P * ?T" using i(2) by (intro mult_right_mono) simp_all
  then have nlt: "?n < ?P * ?T" using off(2) by (simp add: pair_bit_def algebra_simps)
  have n0: "0 \<le> ?n" using iT off(1) by (simp add: pair_bit_def)
  from nvisited_Inr[OF nv] cT
  have len: "int (length (bt_visited b)) = (?P * ?T + 31) sdiv 32"
    and top: "?P * ?T + 31 \<le> INT_MAX" by simp_all
  have "0 \<le> ?P * ?T + 31" using n0 nlt by simp
  then have "(?P * ?T + 31) sdiv 32 = (?P * ?T + 31) div 32" by (rule sdiv_nonneg)
  with len have len': "int (length (bt_visited b)) = (?P * ?T + 31) div 32" by simp
  have c1: "chk_int (i * ?T) = Inr (i * ?T)"
    using iT off(1) nlt top by (simp add: chk_int_def INT_MIN_def pair_bit_def)
  have c2: "chk_int ?n = Inr ?n"
    using n0 nlt top by (simp add: chk_int_def INT_MIN_def)
  have vi: "visited_index (bt_text b) i p = Inr ?n"
    using c1 c2 by (simp add: visited_index_def cT coff pair_bit_def)
  have sd: "?n sdiv 32 = ?n div 32" using n0 by (rule sdiv_nonneg)
  have lt: "?n div 32 < int (length (bt_visited b))"
    unfolding len' using n0 nlt by (rule div32_lt)
  have ge: "0 \<le> ?n div 32" using n0 by simp
  show "visited_slot b i p = Inr (nat (?n div 32), push_bit (nat (?n mod 32)) 1)"
    using ple vi lt ge by (simp add: visited_slot_def sd and31_mod)
  show "0 \<le> ?n" by (rule n0)
qed

lemma valid_pair_slot_inj:
  assumes nv: "nvisited (bt_prog b) (bt_text b) = Inr (int (length (bt_visited b)))"
    and rng: "int (sp_size (bt_text b)) + 1 \<le> INT_MAX"
    and vp: "valid_pair (bt_prog b) (bt_text b) i p"
    and vp': "valid_pair (bt_prog b) (bt_text b) i' p'"
    and eq: "visited_slot b i p = visited_slot b i' p'"
  shows "i = i' \<and> p = p'"
proof -
  let ?n = "pair_bit (bt_text b) i p"
  let ?n' = "pair_bit (bt_text b) i' p'"
  from valid_pair_slot[OF nv rng vp] valid_pair_slot[OF nv rng vp'] eq
  have w: "nat (?n div 32) = nat (?n' div 32)"
    and m: "push_bit (nat (?n mod 32)) (1 :: 32 word) = push_bit (nat (?n' mod 32)) 1"
    and n0: "0 \<le> ?n" "0 \<le> ?n'"
    by simp_all
  from w n0 have d: "?n div 32 = ?n' div 32" by simp
  have "nat (?n mod 32) = nat (?n' mod 32)"
    using m by (intro mask_inj) simp_all
  then have "?n mod 32 = ?n' mod 32" by simp
  with d have "?n = ?n'" by (rule divmod32_inj)
  moreover from vp vp' have
    "0 \<le> int p - int (sp_data (bt_text b))"
    "int p - int (sp_data (bt_text b)) < int (sp_size (bt_text b)) + 1"
    "0 \<le> int p' - int (sp_data (bt_text b))"
    "int p' - int (sp_data (bt_text b)) < int (sp_size (bt_text b)) + 1"
    by (auto simp: valid_pair_def)
  ultimately have "i = i' \<and> int p - int (sp_data (bt_text b)) = int p' - int (sp_data (bt_text b))"
    unfolding pair_bit_def by (intro pair_number_inj) simp_all
  then show ?thesis by simp
qed

section \<open>A null context\<close>

text \<open>
  C10. When the context has null data, the first statements of \<open>Search\<close> leave
  \<open>context_\<close> equal to the text. The anchor tests then compare the text with itself and
  reject nothing, and the search proper (\<open>Search_start\<close>: the calls of \<open>Visit\<close>, whose
  \<open>Try\<close> reads the empty-width flags and the end of the context from \<open>context_\<close>) runs on a
  backtracker whose \<open>context_\<close> is the text. So \<open>Search\<close> with such a context is \<open>Search\<close>
  with the text as context (same result, same final backtracker, same fault), and the
  backtracker it returns has the text as \<open>text_\<close> and as \<open>context_\<close>.
\<close>

theorem Search_null_context:
  assumes "sp_data context = NULL"
  shows "Search_init b text context = b\<lparr>bt_explored := [], bt_text := text, bt_context := text\<rparr>
    \<and> Search fuel mem b text context anchored longest submatch nsubmatch =
        Search fuel mem b text text anchored longest submatch nsubmatch
    \<and> Search fuel mem b text context anchored longest submatch nsubmatch =
        (case chk_int (2 * nsubmatch) of Inl e \<Rightarrow> Some (Inl e) | Inr n2 \<Rightarrow>
           if \<not> n2 < kCapSize then Some (Inl CheckFailed)
           else if 1 \<le> nsubmatch \<and> submatch = [] then Some (Inl SubmatchOutOfBounds)
           else case nvisited (bt_prog b) text of Inl e \<Rightarrow> Some (Inl e) | Inr nv \<Rightarrow>
             if nv < 0 then Some (Inl BadAlloc)
             else Search_start fuel mem text
                    (b\<lparr>bt_explored := [], bt_text := text, bt_context := text,
                       bt_anchored := anchored \<or> anchor_start (bt_prog b),
                       bt_longest := longest \<or> anchor_end (bt_prog b),
                       bt_endmatch := anchor_end (bt_prog b),
                       bt_submatch :=
                         (if nsubmatch < 1 then [StringPiece0] else submatch)[0 := StringPiece0],
                       bt_nsubmatch := (if nsubmatch < 1 then 1 else nsubmatch),
                       bt_cap := replicate (nat kCapSize) NULL,
                       bt_visited := replicate (nat nv) 0\<rparr>))
    \<and> (\<forall>r b'. Search fuel mem b text context anchored longest submatch nsubmatch
                  = Some (Inr (r, b')) \<longrightarrow>
                bt_text b' = text \<and> bt_context b' = text)"
proof -
  have 1: "Search_init b text context = b\<lparr>bt_explored := [], bt_text := text, bt_context := text\<rparr>"
    using assms by (simp add: Search_init_def Let_def)
  have "Search_init b text text = b\<lparr>bt_explored := [], bt_text := text, bt_context := text\<rparr>"
    by (simp add: Search_init_def Let_def)
  with 1 have "Search_init b text context = Search_init b text text" by simp
  then have 2: "Search fuel mem b text context anchored longest submatch nsubmatch =
        Search fuel mem b text text anchored longest submatch nsubmatch"
    by (simp add: Search_def)
  have 3: "Search fuel mem b text context anchored longest submatch nsubmatch =
        (case chk_int (2 * nsubmatch) of Inl e \<Rightarrow> Some (Inl e) | Inr n2 \<Rightarrow>
           if \<not> n2 < kCapSize then Some (Inl CheckFailed)
           else if 1 \<le> nsubmatch \<and> submatch = [] then Some (Inl SubmatchOutOfBounds)
           else case nvisited (bt_prog b) text of Inl e \<Rightarrow> Some (Inl e) | Inr nv \<Rightarrow>
             if nv < 0 then Some (Inl BadAlloc)
             else Search_start fuel mem text
                    (b\<lparr>bt_explored := [], bt_text := text, bt_context := text,
                       bt_anchored := anchored \<or> anchor_start (bt_prog b),
                       bt_longest := longest \<or> anchor_end (bt_prog b),
                       bt_endmatch := anchor_end (bt_prog b),
                       bt_submatch :=
                         (if nsubmatch < 1 then [StringPiece0] else submatch)[0 := StringPiece0],
                       bt_nsubmatch := (if nsubmatch < 1 then 1 else nsubmatch),
                       bt_cap := replicate (nat kCapSize) NULL,
                       bt_visited := replicate (nat nv) 0\<rparr>))"
    unfolding Search_def 1 Let_def Search_start_def
    by (cases b) (auto split: sum.splits)
  have 4: "bt_text b' = text \<and> bt_context b' = text"
    if s: "Search fuel mem b text context anchored longest submatch nsubmatch = Some (Inr (r, b'))"
    for r b'
  proof -
    from s[unfolded 3] obtain b7 where "Search_start fuel mem text b7 = Some (Inr (r, b'))"
      and "bt_text b7 = text" and "bt_context b7 = text"
      by (auto split: sum.splits if_splits)
    with Search_start_frame[of fuel mem "text" b7 r b'] show ?thesis by (simp add: frame_def)
  qed
  from 1 2 3 4 show ?thesis by blast
qed

theorem Search_null_context_witness:
  "sp_data StringPiece0 = NULL \<and>
   first_match (Search 65 ex_mem (Backtracker_new ctx_prog) ex_aa StringPiece0
                  False False [StringPiece0] 1) = Some ex_aa \<and>
   outcome (Search 65 ex_mem (Backtracker_new ctx_prog) ex_aa ex_aab
              False False [StringPiece0] 1) = Some (Inr False)"
proof -
  have n: "sp_data StringPiece0 = NULL" by (simp add: StringPiece0_def)
  have a: "first_match (Search 65 ex_mem (Backtracker_new ctx_prog) ex_aa ex_aa
                   False False [StringPiece0] 1) = Some ex_aa"
    by code_simp
  have b: "outcome (Search 65 ex_mem (Backtracker_new ctx_prog) ex_aa ex_aab
              False False [StringPiece0] 1) = Some (Inr False)"
    by code_simp
  from Search_null_context[OF n, of "Backtracker_new ctx_prog" ex_aa 65 ex_mem
      False False "[StringPiece0]" 1]
  have "Search 65 ex_mem (Backtracker_new ctx_prog) ex_aa StringPiece0
          False False [StringPiece0] 1 =
        Search 65 ex_mem (Backtracker_new ctx_prog) ex_aa ex_aa False False [StringPiece0] 1"
    by blast
  with n a b show ?thesis by simp
qed

section \<open>Longest match\<close>

text \<open>
  C3. In \<open>Visit\<close>, when the bit of the pair was clear and \<open>Try(id', p)\<close> reports a match:
  with \<open>longest_\<close> and an instruction that is not the last of its list,
  \<open>Visit(id' + 1, p)\<close> is called at the same position on the state \<open>Try\<close> left, and
  \<open>Visit\<close> then returns true whatever that call returned (its faults are passed on), so
  in the state returned the pair \<open>(id' + 1, p)\<close> has its bit set; without \<open>longest_\<close>, or at
  the last instruction of a list, \<open>Visit\<close> returns true with the state \<open>Try\<close> left, and
  \<open>id' + 1\<close> is not explored.
\<close>

theorem Visit_longest_explores_next:
  assumes "visited_slot b i p = Inr (w, m)" and "bt_visited b ! w AND m = 0"
    and "prog_inst (bt_prog b) i = Inr ip"
    and "Try k mem i p (mark b w m i p) = Some (Inr (True, b2))"
  shows "(bt_longest b \<and> \<not> last' ip \<longrightarrow>
            Visit (Suc k) mem i p b =
              (case Visit k mem (i + 1) p b2 of
                 None \<Rightarrow> None
               | Some (Inl e) \<Rightarrow> Some (Inl e)
               | Some (Inr (r, b3)) \<Rightarrow> Some (Inr (True, b3))) \<and>
            (\<forall>r b3. Visit (Suc k) mem i p b = Some (Inr (r, b3)) \<longrightarrow> r \<and> slot_set b3 (i + 1) p))
       \<and> (\<not> (bt_longest b \<and> \<not> last' ip) \<longrightarrow>
            Visit (Suc k) mem i p b = Some (Inr (True, b2)))"
proof -
  have V: "Visit (Suc k) mem i p b = after_Try k mem i p ip (Try k mem i p (mark b w m i p))"
  proof (cases rule: Visit_Suc_cases[of b i p k mem])
    case (fault e)
    with assms(1) show ?thesis by simp
  next
    case (pruned w' m')
    with assms(1,2) show ?thesis by simp
  next
    case (bad_inst w' m' e)
    with assms(3) show ?thesis by simp
  next
    case (explore w' m' ip')
    with assms(1,3) show ?thesis by simp
  qed
  from Try_frame[OF assms(4)] frame_mark[OF assms(1)]
  have l: "bt_longest b2 = bt_longest b" by (simp add: frame_def)
  have A: "Visit (Suc k) mem i p b =
              (case Visit k mem (i + 1) p b2 of
                 None \<Rightarrow> None
               | Some (Inl e) \<Rightarrow> Some (Inl e)
               | Some (Inr (r, b3)) \<Rightarrow> Some (Inr (True, b3)))"
    if "bt_longest b \<and> \<not> last' ip"
    using that l unfolding V assms(4) after_Try_def by simp
  have B: "r \<and> slot_set b3 (i + 1) p"
    if c: "bt_longest b \<and> \<not> last' ip" and v: "Visit (Suc k) mem i p b = Some (Inr (r, b3))"
    for r b3
  proof -
    from v A[OF c] obtain r' where "Visit k mem (i + 1) p b2 = Some (Inr (r', b3))" and "r"
      by (auto split: option.splits sum.splits)
    with Visit_sets_slot show ?thesis by blast
  qed
  have C: "Visit (Suc k) mem i p b = Some (Inr (True, b2))"
    if "\<not> (bt_longest b \<and> \<not> last' ip)"
    using that l unfolding V assms(4) after_Try_def by auto
  from A B C show ?thesis by blast
qed

theorem Visit_longest_explores_next_witness:
  "\<exists>b2. Try 8 ex_mem 2 101 (mark ex_bt 0 512 2 101) = Some (Inr (True, b2)) \<and>
         Visit (Suc 8) ex_mem 2 101 ex_bt =
           (case Visit 8 ex_mem 3 101 b2 of
              None \<Rightarrow> None
            | Some (Inl e) \<Rightarrow> Some (Inl e)
            | Some (Inr (r, b3)) \<Rightarrow> Some (Inr (True, b3))) \<and>
         outcome (Visit (Suc 8) ex_mem 2 101 ex_bt) = Some (Inr True)"
proof -
  have s: "visited_slot ex_bt 2 101 = Inr (0, 512)" by code_simp
  have u: "bt_visited ex_bt ! 0 AND 512 = 0" by code_simp
  have ip: "prog_inst (bt_prog ex_bt) 2 = Inr (ex_inst kInstNop 1 False)"
    by (simp add: prog_inst_def prog_size_def ex_bt_def Backtracker_new_def ex_prog_def)
  have "outcome (Try 8 ex_mem 2 101 (mark ex_bt 0 512 2 101)) = Some (Inr True)" by code_simp
  then obtain b2 where t: "Try 8 ex_mem 2 101 (mark ex_bt 0 512 2 101) = Some (Inr (True, b2))"
    by (rule outcome_Inr)
  have lg: "bt_longest ex_bt \<and> \<not> last' (ex_inst kInstNop 1 False)"
    by (simp add: ex_bt_def ex_inst_def)
  have o: "outcome (Visit (Suc 8) ex_mem 2 101 ex_bt) = Some (Inr True)" by code_simp
  from Visit_longest_explores_next[OF s u ip t] lg o t show ?thesis
    by (intro exI[of _ b2]) simp
qed

section \<open>Capture registers\<close>

text \<open>
  \<open>cap_\<close> has exactly 64 slots. When the anchor tests pass, \<open>Search\<close> fails its check
  unless \<open>2 * nsubmatch < 64\<close>, as long as the product fits \<open>int\<close>. A \<open>kInstCapture\<close>
  whose index lies outside \<open>[0, 64)\<close> is followed by \<open>Visit(ip->out(), p)\<close> on the
  backtracker as it is, no register read or written. With 64 slots and
  \<open>2 * nsubmatch_ < 64\<close> no call of \<open>Try\<close> or \<open>Visit\<close> accesses a register out of bounds.
\<close>

lemma Try_cap_in_bounds:
  "kCapSize = 64 \<and> length (bt_cap (Backtracker_new prog)) = 64
   \<and> (\<not> Search_rejects (bt_prog b0) text context \<and> \<not> 2 * nsubmatch < 64 \<longrightarrow>
        Search fuel mem b0 text context anchored longest submatch nsubmatch =
          Some (Inl (if 2 * nsubmatch \<le> INT_MAX then CheckFailed else SignedOverflow)))
   \<and> (prog_inst (bt_prog b) i = Inr ip \<and> opcode ip = kInstCapture \<and>
        \<not> (0 \<le> cap ip \<and> cap ip < 64) \<longrightarrow>
        Try (Suc k) mem i p b = Visit k mem (out ip) p b)
   \<and> (int (length (bt_cap b)) = 64 \<and> 2 * bt_nsubmatch b < 64 \<longrightarrow>
        Try k mem i p b \<noteq> Some (Inl CapOutOfBounds) \<and>
        Visit k mem i p b \<noteq> Some (Inl CapOutOfBounds))
   \<and> Search fuel mem b0 text context anchored longest submatch nsubmatch
        \<noteq> Some (Inl CapOutOfBounds)
   \<and> (\<forall>r b'. Search fuel mem b0 text context anchored longest submatch nsubmatch
                 = Some (Inr (r, b')) \<and> \<not> Search_rejects (bt_prog b0) text context \<longrightarrow>
               int (length (bt_cap b')) = 64 \<and> 2 * bt_nsubmatch b' < 64)"
proof -
  have 1: "kCapSize = 64 \<and> length (bt_cap (Backtracker_new prog)) = 64"
    by (simp add: kCapSize_def Backtracker_new_def)
  have 2: "Search fuel mem b0 text context anchored longest submatch nsubmatch =
          Some (Inl (if 2 * nsubmatch \<le> INT_MAX then CheckFailed else SignedOverflow))"
    if "\<not> Search_rejects (bt_prog b0) text context \<and> \<not> 2 * nsubmatch < 64"
    using that by (intro Search_check_nsubmatch) (simp_all add: kCapSize_def)
  have 3: "Try (Suc k) mem i p b = Visit k mem (out ip) p b"
    if "prog_inst (bt_prog b) i = Inr ip \<and> opcode ip = kInstCapture \<and>
        \<not> (0 \<le> cap ip \<and> cap ip < 64)"
    using that by (auto simp: Try.simps(2) Let_def kCapSize_def)
  have 4: "Try k mem i p b \<noteq> Some (Inl CapOutOfBounds) \<and>
        Visit k mem i p b \<noteq> Some (Inl CapOutOfBounds)"
    if "int (length (bt_cap b)) = 64 \<and> 2 * bt_nsubmatch b < 64"
  proof -
    from that have "cap_ok b" by (simp add: cap_ok_def kCapSize_def)
    with Visit_Try_no_cap_fault[of b k mem i p] show ?thesis by blast
  qed
  have 5: "Search fuel mem b0 text context anchored longest submatch nsubmatch
        \<noteq> Some (Inl CapOutOfBounds)"
    by (rule Search_no_cap_fault)
  have 6: "int (length (bt_cap b')) = 64 \<and> 2 * bt_nsubmatch b' < 64"
    if "Search fuel mem b0 text context anchored longest submatch nsubmatch
                 = Some (Inr (r, b')) \<and> \<not> Search_rejects (bt_prog b0) text context"
    for r b'
  proof -
    from that Search_result(2)[of fuel mem b0 "text" "context" anchored longest submatch nsubmatch r b']
    have "cap_ok b'" by blast
    then show ?thesis by (simp add: cap_ok_def kCapSize_def)
  qed
  from 1 2 3 4 5 6 show ?thesis by blast
qed

text \<open>
  With 64 registers and more than 32 submatches to fill, the copy loop of \<open>Try\<close> at
  \<open>kInstMatch\<close> gets to \<open>cap_[64]\<close>.
\<close>

lemma store_submatch_overrun:
  assumes "0 \<le> j" "j \<le> 32" "32 \<le> m" "int (length (bt_cap b)) = 64"
    and "32 \<le> int (length (bt_submatch b))"
  shows "store_submatch [j .. m] b = Inl CapOutOfBounds"
  using assms
proof (induction "nat (32 - j)" arbitrary: j b)
  case 0
  then have j: "j = 32" by simp
  have "[j .. m] = j # [j + 1 .. m]" using 0 j by (simp add: upto_rec1)
  then show ?case using 0 j by (simp add: cap_get_def)
next
  case (Suc n)
  then have j: "j < 32" by simp
  have u: "[j .. m] = j # [j + 1 .. m]" using Suc.prems j by (simp add: upto_rec1)
  let ?b = "b\<lparr>bt_submatch := (bt_submatch b)
              [nat j := \<lparr>sp_data = bt_cap b ! nat (2 * j),
                         sp_size = size_t_cast (int (bt_cap b ! nat (2 * j + 1))
                                                - int (bt_cap b ! nat (2 * j)))\<rparr>]\<rparr>"
  have "store_submatch [j + 1 .. m] ?b = Inl CapOutOfBounds"
    using Suc.prems Suc.hyps(2) j by (intro Suc.hyps(1)) simp_all
  then show ?case using Suc.prems j unfolding u by (simp add: cap_get_def)
qed

text \<open>
  C6. With \<open>nsubmatch = 2^30\<close> the registers are not kept in bounds. The product
  \<open>2 * nsubmatch_\<close> of the check in \<open>Search\<close> does not fit \<open>int\<close>: the call ends in the
  overflow, not in the failed check. Wrapped to \<open>int\<close> the product is \<open>INT_MIN\<close>, which is
  below 64 and passes the check; on the backtracker \<open>Search\<close> then sets up (64 registers,
  \<open>nsubmatch_ = 2^30\<close>, as many submatches) \<open>Try\<close> at the \<open>kInstMatch\<close> instruction reads
  \<open>cap_\<close> out of bounds.
\<close>

theorem cap_check_overflow:
  "Search 65 ex_mem (Backtracker_new ex_prog) ex_aab ex_aab False False
      (replicate 1073741824 StringPiece0) 1073741824 = Some (Inl SignedOverflow)
   \<and> int_cast (2 * 1073741824) = INT_MIN
   \<and> INT_MIN < kCapSize
   \<and> bt_nsubmatch ex_bt_overflow = 1073741824
   \<and> length (bt_cap ex_bt_overflow) = 64
   \<and> length (bt_submatch ex_bt_overflow) = 1073741824
   \<and> Try 1 ex_mem 3 102 ex_bt_overflow = Some (Inl CapOutOfBounds)"
proof -
  have nr: "\<not> Search_rejects (bt_prog (Backtracker_new ex_prog)) ex_aab ex_aab"
    by (simp add: Search_rejects_def Backtracker_new_def ex_prog_def Let_def)
  have 1: "Search 65 ex_mem (Backtracker_new ex_prog) ex_aab ex_aab False False
      (replicate 1073741824 StringPiece0) 1073741824 = Some (Inl SignedOverflow)"
    using Search_check_nsubmatch[OF nr, of 1073741824 65 ex_mem False False
        "replicate 1073741824 StringPiece0"]
    by (simp add: kCapSize_def INT_MAX_def)
  have 2: "int_cast (2 * 1073741824) = INT_MIN" by (simp add: int_cast_def INT_MIN_def)
  have 3: "INT_MIN < kCapSize" by (simp add: INT_MIN_def kCapSize_def)
  have 4: "bt_nsubmatch ex_bt_overflow = 1073741824" by (simp add: ex_bt_overflow_def)
  have 5: "length (bt_cap ex_bt_overflow) = 64"
    by (simp add: ex_bt_overflow_def Backtracker_new_def kCapSize_def)
  have 6: "length (bt_submatch ex_bt_overflow) = 1073741824" by (simp add: ex_bt_overflow_def)
  let ?b1 = "ex_bt_overflow\<lparr>bt_cap := (bt_cap ex_bt_overflow)[nat 1 := 102]\<rparr>"
  have ip: "prog_inst (bt_prog ex_bt_overflow) 3 = Inr (ex_inst kInstMatch 0 True)"
    by (simp add: prog_inst_def prog_size_def ex_bt_overflow_def Backtracker_new_def ex_prog_def)
  have cs: "cap_set ex_bt_overflow 1 102 = Inr ?b1" using 5 by (simp add: cap_set_def)
  have st: "store_submatch [0 .. bt_nsubmatch ?b1 - 1] ?b1 = Inl CapOutOfBounds"
    using 4 5 6 by (intro store_submatch_overrun) simp_all
  have sm: "bt_submatch ?b1 \<noteq> []" "sp_data (bt_submatch ?b1 ! 0) = NULL"
    by (simp_all add: ex_bt_overflow_def StringPiece0_def)
  have em: "\<not> bt_endmatch ex_bt_overflow" by (simp add: ex_bt_overflow_def Backtracker_new_def)
  have "Try (Suc 0) ex_mem 3 102 ex_bt_overflow = Some (Inl CapOutOfBounds)"
    using em sm st by (simp add: Try.simps(2) Let_def ip cs ex_inst_def)
  then have 7: "Try 1 ex_mem 3 102 ex_bt_overflow = Some (Inl CapOutOfBounds)" by simp
  from 1 2 3 4 5 6 7 show ?thesis by blast
qed

section \<open>The visited bitmap\<close>

text \<open>
  For every program, text and context: \<open>Search\<close> returns, given the depth \<open>Search_fuel\<close>,
  and so do \<open>Visit\<close> and \<open>Try\<close> given twice the number of clear bits of the bitmap (plus
  one, plus two); what they return within some depth they return within any greater
  depth. In the state a search returns no pair occurs twice in the history of the pairs
  explored. When the anchor tests pass, the bitmap has \<open>(prog.size \<times> T + 31) / 32\<close> words,
  where \<open>T\<close> is \<open>text.size() + 1\<close> cast to \<open>int\<close>. \<open>Visit\<close> on a pair whose bit is set
  returns false with the state unchanged; on a pair whose bit is clear it sets the bit and
  adds the pair to the history before it calls \<open>Try\<close>. With a bitmap of the size
  \<open>Search\<close> computes and \<open>text.size() + 1\<close> fitting \<open>int\<close>, every pair of an instruction of
  the program and a position of the text has a bit in the bitmap, and two different pairs
  have different bits.
\<close>

lemma Search_terminates_explores_once:
  "(Search_fuel (bt_prog b0) tx \<le> fuel \<longrightarrow>
      Search fuel mem b0 tx ctx anchored longest submatch nsubmatch \<noteq> None)
   \<and> (2 * unvisited (bt_visited b) + 1 \<le> k \<longrightarrow> Visit k mem i p b \<noteq> None)
   \<and> (2 * unvisited (bt_visited b) + 2 \<le> k \<longrightarrow> Try k mem i p b \<noteq> None)
   \<and> (\<forall>r b'. Search fuel mem b0 tx ctx anchored longest submatch nsubmatch = Some (Inr (r, b')) \<longrightarrow>
         distinct (bt_explored b') \<and>
         (\<not> Search_rejects (bt_prog b0) tx ctx \<longrightarrow>
            int (length (bt_visited b')) =
              (prog_size (bt_prog b0) * int_cast (int (sp_size tx) + 1) + 31) sdiv 32 \<and>
            (int (sp_size tx) + 1 \<le> INT_MAX \<longrightarrow>
               int (length (bt_visited b')) =
                 \<lceil>real_of_int (prog_size (bt_prog b0) * (int (sp_size tx) + 1)) / 32\<rceil>)))
   \<and> (visited_slot b i p = Inr (w, m) \<and> bt_visited b ! w AND m \<noteq> 0 \<longrightarrow>
         Visit (Suc k) mem i p b = Some (Inr (False, b)))
   \<and> (visited_slot b i p = Inr (w, m) \<and> bt_visited b ! w AND m = 0 \<and>
       prog_inst (bt_prog b) i = Inr ip \<longrightarrow>
         Visit (Suc k) mem i p b = after_Try k mem i p ip (Try k mem i p (mark b w m i p)) \<and>
         slot_set (mark b w m i p) i p)
   \<and> (nvisited (bt_prog b) (bt_text b) = Inr (int (length (bt_visited b))) \<and>
       int (sp_size (bt_text b)) + 1 \<le> INT_MAX \<and>
       valid_pair (bt_prog b) (bt_text b) i p \<and> valid_pair (bt_prog b) (bt_text b) i' p' \<longrightarrow>
         (\<exists>w m. visited_slot b i p = Inr (w, m)) \<and>
         (visited_slot b i p = visited_slot b i' p' \<longrightarrow> i = i' \<and> p = p'))
   \<and> (Search fuel mem b0 tx ctx anchored longest submatch nsubmatch = Some res \<longrightarrow>
         Search (fuel + j) mem b0 tx ctx anchored longest submatch nsubmatch = Some res)
   \<and> (Visit k mem i p b = Some res \<longrightarrow> Visit (k + j) mem i p b = Some res)
   \<and> (Try k mem i p b = Some res \<longrightarrow> Try (k + j) mem i p b = Some res)"
proof -
  have 1: "Search fuel mem b0 tx ctx anchored longest submatch nsubmatch \<noteq> None"
    if "Search_fuel (bt_prog b0) tx \<le> fuel"
    using that by (rule Search_terminates)
  have 2: "Visit k mem i p b \<noteq> None" if "2 * unvisited (bt_visited b) + 1 \<le> k"
    using that Visit_Try_terminate[of b k mem i p] by blast
  have 3: "Try k mem i p b \<noteq> None" if "2 * unvisited (bt_visited b) + 2 \<le> k"
    using that Visit_Try_terminate[of b k mem i p] by blast
  have 4: "distinct (bt_explored b') \<and>
         (\<not> Search_rejects (bt_prog b0) tx ctx \<longrightarrow>
            int (length (bt_visited b')) =
              (prog_size (bt_prog b0) * int_cast (int (sp_size tx) + 1) + 31) sdiv 32 \<and>
            (int (sp_size tx) + 1 \<le> INT_MAX \<longrightarrow>
               int (length (bt_visited b')) =
                 \<lceil>real_of_int (prog_size (bt_prog b0) * (int (sp_size tx) + 1)) / 32\<rceil>))"
    if s: "Search fuel mem b0 tx ctx anchored longest submatch nsubmatch = Some (Inr (r, b'))"
    for r b'
  proof -
    have d: "distinct (bt_explored b')" using s by (rule Search_result(1))
    have "int (length (bt_visited b')) =
              (prog_size (bt_prog b0) * int_cast (int (sp_size tx) + 1) + 31) sdiv 32 \<and>
            (int (sp_size tx) + 1 \<le> INT_MAX \<longrightarrow>
               int (length (bt_visited b')) =
                 \<lceil>real_of_int (prog_size (bt_prog b0) * (int (sp_size tx) + 1)) / 32\<rceil>)"
      if nr: "\<not> Search_rejects (bt_prog b0) tx ctx"
    proof -
      from Search_result(2)[OF s nr]
      have n: "nvisited (bt_prog b0) tx = Inr (int (length (bt_visited b')))" by blast
      from nvisited_Inr(1)[OF n] nvisited_ceiling[OF n] show ?thesis by blast
    qed
    with d show ?thesis by blast
  qed
  have 5: "Visit (Suc k) mem i p b = Some (Inr (False, b))"
    if "visited_slot b i p = Inr (w, m) \<and> bt_visited b ! w AND m \<noteq> 0"
    using that by (simp add: Visit.simps(2))
  have 6: "Visit (Suc k) mem i p b = after_Try k mem i p ip (Try k mem i p (mark b w m i p)) \<and>
         slot_set (mark b w m i p) i p"
    if h: "visited_slot b i p = Inr (w, m) \<and> bt_visited b ! w AND m = 0 \<and>
       prog_inst (bt_prog b) i = Inr ip"
  proof -
    have "Visit (Suc k) mem i p b = after_Try k mem i p ip (Try k mem i p (mark b w m i p))"
      using h by (simp add: Visit.simps(2) Let_def mark_def after_Try_def)
    moreover from h have "slot_set (mark b w m i p) i p" using slot_set_mark by blast
    ultimately show ?thesis by blast
  qed
  have 7: "(\<exists>w m. visited_slot b i p = Inr (w, m)) \<and>
         (visited_slot b i p = visited_slot b i' p' \<longrightarrow> i = i' \<and> p = p')"
    if h: "nvisited (bt_prog b) (bt_text b) = Inr (int (length (bt_visited b))) \<and>
       int (sp_size (bt_text b)) + 1 \<le> INT_MAX \<and>
       valid_pair (bt_prog b) (bt_text b) i p \<and> valid_pair (bt_prog b) (bt_text b) i' p'"
  proof -
    from h have nv: "nvisited (bt_prog b) (bt_text b) = Inr (int (length (bt_visited b)))"
      and rng: "int (sp_size (bt_text b)) + 1 \<le> INT_MAX"
      and vp: "valid_pair (bt_prog b) (bt_text b) i p"
      and vp': "valid_pair (bt_prog b) (bt_text b) i' p'" by blast+
    from valid_pair_slot(1)[OF nv rng vp] have "\<exists>w m. visited_slot b i p = Inr (w, m)" by blast
    moreover have "i = i' \<and> p = p'" if "visited_slot b i p = visited_slot b i' p'"
      using nv rng vp vp' that by (rule valid_pair_slot_inj)
    ultimately show ?thesis by blast
  qed
  have 8: "Search (fuel + j) mem b0 tx ctx anchored longest submatch nsubmatch = Some res"
    if "Search fuel mem b0 tx ctx anchored longest submatch nsubmatch = Some res"
    using that by (rule Search_fuel_mono)
  have 9: "Visit (k + j) mem i p b = Some res" if "Visit k mem i p b = Some res"
    using that Visit_Try_fuel_mono[of k mem i p b res j] by blast
  have 10: "Try (k + j) mem i p b = Some res" if "Try k mem i p b = Some res"
    using that Visit_Try_fuel_mono[of k mem i p b res j] by blast
  from 1 2 3 4 5 6 7 8 9 10 show ?thesis by blast
qed

text \<open>
  C1. The bitmap does not have one bit for each pair when \<open>text.size() + 1\<close> does not
  fit \<open>int\<close>. For the program \<open>ab\<close> (four instructions) and a text of \<open>2^32\<close> bytes that
  begins \<open>aXabab\<close>, \<open>text.size() + 1\<close> cast to \<open>int\<close> is 1 and the bitmap has one word, where
  \<open>\<lceil>prog.size \<times> (text.size() + 1) / 32\<rceil>\<close> is 536870913. The pairs \<open>(2, 101)\<close> and
  \<open>(1, 102)\<close> share bit 3 of that word: \<open>Visit(1, 102)\<close> finds the bit set by
  \<open>Visit(2, 101)\<close> and returns false, the pair is never explored, and the search returns
  the match at 104, not the leftmost one at 102 that it returns on the six bytes alone.
  On a text of \<open>2^32\<close> bytes without an \<open>a\<close> the search stops at the check of the word
  index in \<open>Visit\<close>, at the first pair whose number is beyond the one word.
  With a text of \<open>2^29\<close> bytes \<open>text.size() + 1\<close> fits \<open>int\<close> and the product with
  \<open>prog.size\<close> overflows it.
\<close>

theorem visited_bitmap_int_truncation:
  "visited_words (Search 65 ab_mem (Backtracker_new ab_prog) ex_huge ex_huge False False
                    [StringPiece0] 1) = Some 1
   \<and> \<lceil>real_of_int (prog_size ab_prog * (int (sp_size ex_huge) + 1)) / 32\<rceil> = 536870913
   \<and> visited_slot ab_bt_huge 2 101 = Inr (0, 8)
   \<and> visited_slot ab_bt_huge 1 102 = Inr (0, 8)
   \<and> first_match (Search 65 ab_mem (Backtracker_new ab_prog) ex_aXabab ex_aXabab False False
                    [StringPiece0] 1) = Some \<lparr>sp_data = 102, sp_size = 2\<rparr>
   \<and> first_match (Search 65 ab_mem (Backtracker_new ab_prog) ex_huge ex_huge False False
                    [StringPiece0] 1) = Some \<lparr>sp_data = 104, sp_size = 2\<rparr>
   \<and> explored (Search 65 ab_mem (Backtracker_new ab_prog) ex_huge ex_huge False False
                    [StringPiece0] 1)
        = [(1, 100), (2, 101), (1, 101), (1, 103), (1, 104), (2, 105), (3, 106)]
   \<and> explored (Search 65 ab_mem (Backtracker_new ab_prog) ex_aXabab ex_aXabab False False
                    [StringPiece0] 1)
        = [(1, 100), (2, 101), (1, 101), (1, 102), (2, 103), (3, 104)]
   \<and> outcome (Search 65 (\<lambda>p. 88) (Backtracker_new ab_prog) ex_huge ex_huge False False
                    [StringPiece0] 1) = Some (Inl CheckFailed)
   \<and> int (sp_size ex_half) + 1 \<le> INT_MAX
   \<and> nvisited ab_prog ex_half = Inl SignedOverflow"
proof -
  have 1: "visited_words (Search 65 ab_mem (Backtracker_new ab_prog) ex_huge ex_huge False False
                    [StringPiece0] 1) = Some 1"
    by code_simp
  have 2: "\<lceil>real_of_int (prog_size ab_prog * (int (sp_size ex_huge) + 1)) / 32\<rceil> = 536870913"
    unfolding ceiling_div32 by (simp add: prog_size_def ab_prog_def ex_huge_def)
  have 3: "visited_slot ab_bt_huge 2 101 = Inr (0, 8)" by code_simp
  have 4: "visited_slot ab_bt_huge 1 102 = Inr (0, 8)" by code_simp
  have 5: "first_match (Search 65 ab_mem (Backtracker_new ab_prog) ex_aXabab ex_aXabab False False
                    [StringPiece0] 1) = Some \<lparr>sp_data = 102, sp_size = 2\<rparr>"
    by code_simp
  have 6: "first_match (Search 65 ab_mem (Backtracker_new ab_prog) ex_huge ex_huge False False
                    [StringPiece0] 1) = Some \<lparr>sp_data = 104, sp_size = 2\<rparr>"
    by code_simp
  have 7: "explored (Search 65 ab_mem (Backtracker_new ab_prog) ex_huge ex_huge False False
                    [StringPiece0] 1)
        = [(1, 100), (2, 101), (1, 101), (1, 103), (1, 104), (2, 105), (3, 106)]"
    by code_simp
  have 8: "int (sp_size ex_half) + 1 \<le> INT_MAX" by (simp add: ex_half_def INT_MAX_def)
  have 9: "nvisited ab_prog ex_half = Inl SignedOverflow" by code_simp
  have 10: "explored (Search 65 ab_mem (Backtracker_new ab_prog) ex_aXabab ex_aXabab False False
                    [StringPiece0] 1)
        = [(1, 100), (2, 101), (1, 101), (1, 102), (2, 103), (3, 104)]"
    by code_simp
  have 11: "outcome (Search 65 (\<lambda>p. 88) (Backtracker_new ab_prog) ex_huge ex_huge False False
                    [StringPiece0] 1) = Some (Inl CheckFailed)"
    by code_simp
  from 1 2 3 4 5 6 7 8 9 10 11 show ?thesis by blast
qed

end
